theory Spec2Isabelle
  imports Main "HOL-Library.AList"
begin

section \<open>The world the crawlers run in\<close>

text \<open>
  The drivers (\<^verbatim>\<open>us/caselaw_index.js\<close>, \<^verbatim>\<open>us/acts_index.js\<close> and the Singapore
  driver \<^verbatim>\<open>scrapeSingaporeCaseLaws\<close>) talk to two outside parties: the HTTP workers, through
  \<^verbatim>\<open>fetch\<close>, and the Supabase store. Both are made explicit here. The network is a script
  of the outcomes of the successive requests; the store is the content of its tables together
  with a script saying which of the successive store calls is refused. Every request, pause
  and store call is appended to a trace.
\<close>

type_synonym url = string

text \<open>A thrown JavaScript value or a Supabase error object: its \<^verbatim>\<open>code\<close> and \<^verbatim>\<open>message\<close>.\<close>

datatype exn = Exn (code: string) (message: string)

datatype 'a outcome = Returned 'a | Threw exn

text \<open>The fields of a scraped case, each possibly \<^verbatim>\<open>undefined\<close>.\<close>

record caseData =
  court_name :: "string option"
  case_name :: "string option"
  case_no :: "string option"
  date :: "string option"
  case_text :: "string option"
  citation :: "string option"

text \<open>What a scrape task hands to the storing loop: the fields plus \<^verbatim>\<open>status\<close> and \<^verbatim>\<open>error\<close>.\<close>

record scraped = caseData +
  status :: "string option"
  error :: "string option"

type_synonym result = "scraped \<times> url"

datatype body = Malformed | Urls "url list" | Doc scraped

datatype response = Response (ok: bool) (http_status: nat) (body: body)

datatype reply = NetworkError string | Got response

text \<open>
  The requests the drivers build, by endpoint and parameters: \<^verbatim>\<open>/sitemaps/cases\<close>,
  \<^verbatim>\<open>/pages?sitemap=S\<close>, \<^verbatim>\<open>/sitemap/cases?index=N\<close> and \<^verbatim>\<open>/scrape/cases?url=U\<close>, the
  last with or without \<^verbatim>\<open>&isOld=true\<close>.
\<close>

datatype request = Sitemaps | Pages url | SitemapCases nat | ScrapeCases url bool

datatype event =
    Fetch request
  | Sleep nat
  | Select string string
  | Insert string
  | Upsert url string

record case_row =
  row_id :: nat
  row_data :: caseData
  country :: string

text \<open>A row of \<^verbatim>\<open>caselaw_scraping_urls\<close>, keyed by its url.\<close>

record ledger_row =
  case_id :: "nat option"
  processed :: bool
  l_status :: string
  error_message :: "string option"
  l_country :: "string option"

record section_row =
  section_id :: nat
  act_identifier :: "string option"

record world =
  http :: "reply list"
  store_faults :: "exn option list"
  caselaw_us :: "case_row list"
  caselaw_singapore :: "case_row list"
  caselaw_scraping_urls :: "(url \<times> ledger_row) list"
  sections :: "section_row list"
  serial :: nat
  trace :: "event list"

definition emit :: "event \<Rightarrow> world \<Rightarrow> world" where
  "emit e w = w\<lparr>trace := trace w @ [e]\<rparr>"

definition sleep :: "nat \<Rightarrow> world \<Rightarrow> world" where
  "sleep time w = emit (Sleep time) w"

text \<open>
  \<^verbatim>\<open>fetch(url)\<close>: the next outcome of the script. An exhausted script is a network that is
  down: the request is rejected.
\<close>

definition fetch :: "request \<Rightarrow> world \<Rightarrow> reply \<times> world" where
  "fetch req w =
     (case http w of
        [] \<Rightarrow> (NetworkError ''fetch failed'', emit (Fetch req) w)
      | r # rs \<Rightarrow> (r, emit (Fetch req) (w\<lparr>http := rs\<rparr>)))"

section \<open>The Fetcher\<close>

text \<open>
  What \<^verbatim>\<open>fetchWithRetry\<close> returns: the response, or the object
  \<^verbatim>\<open>{url, status: "error", error: "Failed after multiple retries"}\<close>.
\<close>

datatype fetched = Resp response | Failed request string string

text \<open>
  \<^verbatim>\<open>
  async function fetchWithRetry(url, retries = 5, delayMs = 2000) {
      for (let i = 0; i < retries; i++) {
          const response = await fetch(url);
          if (response.ok) { return response; }
          else if (i < retries - 1) { await sleep(delayMs); }
      }
      return { url, status: "error", error: "Failed after multiple retries" }
  }
  \<close>
  There is no \<^verbatim>\<open>try\<close> in it: a rejected \<^verbatim>\<open>fetch\<close> leaves the function at once.
\<close>

function fetchWithRetry_from ::
  "nat \<Rightarrow> request \<Rightarrow> nat \<Rightarrow> nat \<Rightarrow> world \<Rightarrow> fetched outcome \<times> world" where
  "fetchWithRetry_from i url retries delayMs w =
     (if i < retries then
        (case fetch url w of
           (NetworkError m, w1) \<Rightarrow> (Threw (Exn [] m), w1)
         | (Got response, w1) \<Rightarrow>
             if ok response then (Returned (Resp response), w1)
             else fetchWithRetry_from (i + 1) url retries delayMs
                    (if i < retries - 1 then sleep delayMs w1 else w1))
      else (Returned (Failed url ''error'' ''Failed after multiple retries''), w))"
  by pat_completeness auto
termination
  by (relation "measure (\<lambda>(i, url, retries, delayMs, w). retries - i)") auto

declare fetchWithRetry_from.simps [simp del]

definition fetchWithRetry :: "request \<Rightarrow> world \<Rightarrow> fetched outcome \<times> world" where
  "fetchWithRetry url w = fetchWithRetry_from 0 url 5 2000 w"

section \<open>JavaScript strings\<close>

text \<open>
  \<^verbatim>\<open>if (s)\<close> on a string that may be \<^verbatim>\<open>undefined\<close>: true exactly for a defined, non-empty
  string.
\<close>

definition truthy :: "string option \<Rightarrow> bool" where
  "truthy v = (case v of None \<Rightarrow> False | Some s \<Rightarrow> s \<noteq> [])"

text \<open>
  The characters \<^verbatim>\<open>String.prototype.trim\<close> removes, as far as they are single bytes: tab,
  line feed, vertical tab, form feed, carriage return, space and no-break space.
\<close>

definition whitespace :: "char \<Rightarrow> bool" where
  "whitespace c \<longleftrightarrow>
     c \<in> set [CHR 0x09, CHR 0x0A, CHR 0x0B, CHR 0x0C, CHR 0x0D, CHR 0x20, CHR 0xA0]"

definition trim :: "string \<Rightarrow> string" where
  "trim s = rev (dropWhile whitespace (rev (dropWhile whitespace s)))"

text \<open>\<^verbatim>\<open>s.split(c)\<close> for a one-character separator.\<close>

fun split :: "char \<Rightarrow> string \<Rightarrow> string list" where
  "split c [] = [[]]"
| "split c (x # xs) =
     (if x = c then [] # split c xs
      else (case split c xs of [] \<Rightarrow> [[x]] | p # ps \<Rightarrow> (x # p) # ps))"

text \<open>Decimal digits of a number, for template strings.\<close>

fun digits :: "nat \<Rightarrow> string" where
  "digits n =
     (if n < 10 then [char_of (48 + n)] else digits (n div 10) @ [char_of (48 + n mod 10)])"

declare digits.simps [simp del]

section \<open>The store\<close>

text \<open>
  The Supabase client is a library outside the repository; modelled here is what the code
  relies on: a call does not throw, it comes back with \<^verbatim>\<open>{data, error}\<close>. Every store
  call takes the next entry of \<open>store_faults\<close>: \<open>Some e\<close> means the call comes back with
  \<^verbatim>\<open>{data: null, error: e}\<close> and changes nothing. An exhausted script means no further call
  is refused.
\<close>

definition store_call :: "world \<Rightarrow> exn option \<times> world" where
  "store_call w =
     (case store_faults w of
        [] \<Rightarrow> (None, w)
      | f # fs \<Rightarrow> (f, w\<lparr>store_faults := fs\<rparr>))"

definition PGRST116 :: exn where
  "PGRST116 = Exn ''PGRST116'' ''JSON object requested, multiple (or no) rows returned''"

text \<open>
  \<^verbatim>\<open>.maybeSingle()\<close> and \<^verbatim>\<open>.single()\<close> of the Supabase client, on the rows a query matched:
  one row is the data; \<^verbatim>\<open>maybeSingle\<close> accepts no row, \<^verbatim>\<open>single\<close> does not; several rows
  are the error \<^verbatim>\<open>PGRST116\<close> for both.
\<close>

definition maybeSingle :: "'a list \<Rightarrow> 'a option \<times> exn option" where
  "maybeSingle rows =
     (case rows of [] \<Rightarrow> (None, None) | [r] \<Rightarrow> (Some r, None) | _ \<Rightarrow> (None, Some PGRST116))"

definition single :: "'a list \<Rightarrow> 'a option \<times> exn option" where
  "single rows =
     (case rows of [] \<Rightarrow> (None, Some PGRST116) | [r] \<Rightarrow> (Some r, None)
      | _ \<Rightarrow> (None, Some PGRST116))"

text \<open>
  \<^verbatim>\<open>from('caselaw_scraping_urls').select('processed').eq('url', url).eq('processed', true)
  .maybeSingle()\<close>
\<close>

definition select_processed ::
  "url \<Rightarrow> world \<Rightarrow> (ledger_row option \<times> exn option) \<times> world" where
  "select_processed url w =
     (case store_call (emit (Select ''caselaw_scraping_urls'' url) w) of
        (Some e, w1) \<Rightarrow> ((None, Some e), w1)
      | (None, w1) \<Rightarrow>
          (maybeSingle
             (map snd (filter (\<lambda>(u, r). u = url \<and> processed r) (caselaw_scraping_urls w1))),
           w1))"

text \<open>\<^verbatim>\<open>from('caselaw_singapore').select('id').eq('citation', citation).maybeSingle()\<close>\<close>

definition select_citation ::
  "string \<Rightarrow> world \<Rightarrow> (case_row option \<times> exn option) \<times> world" where
  "select_citation c w =
     (case store_call (emit (Select ''caselaw_singapore'' c) w) of
        (Some e, w1) \<Rightarrow> ((None, Some e), w1)
      | (None, w1) \<Rightarrow>
          (maybeSingle (filter (\<lambda>r. citation (row_data r) = Some c) (caselaw_singapore w1)),
           w1))"

text \<open>
  \<^verbatim>\<open>from('sections').select('section_id').contains('additional', {act_identifier}).single()\<close>
  An \<^verbatim>\<open>undefined\<close> identifier is dropped from the JSON filter, which then holds for every
  row.
\<close>

definition select_section ::
  "string option \<Rightarrow> world \<Rightarrow> (section_row option \<times> exn option) \<times> world" where
  "select_section actIdentifier w =
     (case store_call
             (emit (Select ''sections''
                      (case actIdentifier of None \<Rightarrow> ''undefined'' | Some a \<Rightarrow> a)) w) of
        (Some e, w1) \<Rightarrow> ((None, Some e), w1)
      | (None, w1) \<Rightarrow>
          (single
             (filter (\<lambda>r. case actIdentifier of None \<Rightarrow> True
                           | Some a \<Rightarrow> act_identifier r = Some a) (sections w1)),
           w1))"

text \<open>\<^verbatim>\<open>from(table).insert([caseData]).select('id').single()\<close>: a new row with a fresh id.\<close>

definition insert_caselaw_us ::
  "caseData \<Rightarrow> world \<Rightarrow> (nat option \<times> exn option) \<times> world" where
  "insert_caselaw_us cd w =
     (case store_call (emit (Insert ''caselaw_us'') w) of
        (Some e, w1) \<Rightarrow> ((None, Some e), w1)
      | (None, w1) \<Rightarrow>
          ((Some (serial w1), None),
           w1\<lparr>caselaw_us :=
                 caselaw_us w1 @ [\<lparr>row_id = serial w1, row_data = cd, country = ''US''\<rparr>],
               serial := Suc (serial w1)\<rparr>))"

definition insert_caselaw_singapore ::
  "caseData \<Rightarrow> world \<Rightarrow> (nat option \<times> exn option) \<times> world" where
  "insert_caselaw_singapore cd w =
     (case store_call (emit (Insert ''caselaw_singapore'') w) of
        (Some e, w1) \<Rightarrow> ((None, Some e), w1)
      | (None, w1) \<Rightarrow>
          ((Some (serial w1), None),
           w1\<lparr>caselaw_singapore :=
                 caselaw_singapore w1 @
                   [\<lparr>row_id = serial w1, row_data = cd, country = ''Singapore''\<rparr>],
               serial := Suc (serial w1)\<rparr>))"

text \<open>
  \<^verbatim>\<open>from('caselaw_scraping_urls').upsert([{url, ...}], { onConflict: 'url' })\<close>: the row of
  that url takes the given columns and keeps its others; without such a row a new one is
  made.
\<close>

definition no_row :: ledger_row where
  "no_row = \<lparr>case_id = None, processed = False, l_status = [], error_message = None,
             l_country = None\<rparr>"

definition upsert_url ::
  "url \<Rightarrow> string \<Rightarrow> (ledger_row \<Rightarrow> ledger_row) \<Rightarrow> world \<Rightarrow> exn option \<times> world" where
  "upsert_url url st cols w =
     (case store_call (emit (Upsert url st) w) of
        (Some e, w1) \<Rightarrow> (Some e, w1)
      | (None, w1) \<Rightarrow>
          (None,
           w1\<lparr>caselaw_scraping_urls :=
                 AList.update url
                   (cols (case map_of (caselaw_scraping_urls w1) url of
                            None \<Rightarrow> no_row | Some r \<Rightarrow> r))
                   (caselaw_scraping_urls w1)\<rparr>))"

section \<open>The existence checks\<close>

text \<open>
  \<^verbatim>\<open>us/caselaw_index.js\<close>:
  \<^verbatim>\<open>
  async function checkIfUrlProcessed(url) {
      const { data, error } = await supabase.from('caselaw_scraping_urls')
          .select('processed').eq('url', url).eq('processed', true).maybeSingle();
      if (error && error.code !== 'PGRST116') { console.error(...); return false; }
      return !!data;
  }
  \<close>
\<close>

definition checkIfUrlProcessed_us :: "url \<Rightarrow> world \<Rightarrow> bool \<times> world" where
  "checkIfUrlProcessed_us url w =
     (case select_processed url w of
        ((data, err), w1) \<Rightarrow>
          if (case err of None \<Rightarrow> False | Some e \<Rightarrow> code e \<noteq> ''PGRST116'') then (False, w1)
          else (data \<noteq> None, w1))"

text \<open>
  The Singapore driver has the same function with \<^verbatim>\<open>return false;\<close> as its first
  statement, so the query below it is never made:
  \<^verbatim>\<open>
  async function checkIfUrlProcessed(url) {
      return false;
      const { data, error } = await supabase.from('caselaw_scraping_urls') ...
  \<close>
\<close>

definition checkIfUrlProcessed_sg :: "url \<Rightarrow> world \<Rightarrow> bool \<times> world" where
  "checkIfUrlProcessed_sg url w = (False, w)"

text \<open>
  \<^verbatim>\<open>
  async function checkIfCitationExists(citation) {
      if (!citation) return false;
      const { data, error } = await supabase.from('caselaw_singapore')
          .select('id').eq('citation', citation).maybeSingle();
      if (error && error.code !== 'PGRST116') { console.error(...); return false; }
      return !!data;
  }
  \<close>
\<close>

definition checkIfCitationExists :: "string option \<Rightarrow> world \<Rightarrow> bool \<times> world" where
  "checkIfCitationExists cit w =
     (case cit of
        None \<Rightarrow> (False, w)
      | Some c \<Rightarrow>
          if c = [] then (False, w)
          else (case select_citation c w of
                  ((data, err), w1) \<Rightarrow>
                    if (case err of None \<Rightarrow> False | Some e \<Rightarrow> code e \<noteq> ''PGRST116'')
                    then (False, w1)
                    else (data \<noteq> None, w1)))"

text \<open>
  \<^verbatim>\<open>us/acts_index.js\<close>:
  \<^verbatim>\<open>
  function extractActIdentifierFromUrl(url) {
      const urlParts = url.trim().split('/');
      return urlParts[urlParts.length - 2];
  }
  \<close>
  With fewer than two parts the index is \<^verbatim>\<open>-1\<close> and the value \<^verbatim>\<open>undefined\<close>.
\<close>

definition extractActIdentifierFromUrl :: "url \<Rightarrow> string option" where
  "extractActIdentifierFromUrl url =
     (let urlParts = split (CHR ''/'') (trim url)
      in if length urlParts < 2 then None else Some (urlParts ! (length urlParts - 2)))"

text \<open>
  \<^verbatim>\<open>
  async function checkSectionExistsByUrl(url) {
      try {
          const actIdentifier = extractActIdentifierFromUrl(url);
          const { data, error } = await supabase.from('sections') ... .single();
          if (error) {
              if (error.code === 'PGRST116') { return false; }
              throw error;
          }
          return !!data;
      } catch (error) {
          return false; // Assume it doesn't exist if there's an error
      }
  }
  \<close>
\<close>

definition checkSectionExistsByUrl_try :: "url \<Rightarrow> world \<Rightarrow> bool outcome \<times> world" where
  "checkSectionExistsByUrl_try url w =
     (let actIdentifier = extractActIdentifierFromUrl url
      in case select_section actIdentifier w of
           ((data, err), w1) \<Rightarrow>
             (case err of
                Some e \<Rightarrow> if code e = ''PGRST116'' then (Returned False, w1) else (Threw e, w1)
              | None \<Rightarrow> (Returned (data \<noteq> None), w1)))"

definition checkSectionExistsByUrl :: "url \<Rightarrow> world \<Rightarrow> bool \<times> world" where
  "checkSectionExistsByUrl url w =
     (case checkSectionExistsByUrl_try url w of
        (Returned b, w1) \<Rightarrow> (b, w1)
      | (Threw e, w1) \<Rightarrow> (False, w1))"

section \<open>The Ingest Writers\<close>

text \<open>
  \<^verbatim>\<open>us/caselaw_index.js\<close>, with the commented-out lookup by \<^verbatim>\<open>case_no\<close> left out as it is in
  the running code:
  \<^verbatim>\<open>
  /** Insert case law data into the caselaw_us table if it doesn't already exist ... */
  async function insertCaseLaw(caseData, sourceUrl) {
      try {
          const { data, error } = await supabase.from('caselaw_us')
              .insert([caseData]).select('id').single();
          const { error: urlInsertError } = await supabase.from('caselaw_scraping_urls')
              .upsert([{ url: sourceUrl, case_id: data.id, processed: true,
                         processing_date: new Date(), status: 'success' }], { onConflict: 'url' });
          if (error) console.log('error', error);
          if (data) console.log('data', data.id);
          if (urlInsertError) throw urlInsertError;
          return data.id;
      } catch (error) {
          await supabase.from('caselaw_scraping_urls')
              .upsert([{ url: sourceUrl, processed: false, processing_date: new Date(),
                         status: 'error', error_message: error.message }], { onConflict: 'url' });
          console.error('Error inserting case law:', error);
          throw error;
      }
  }
  \<close>
  When the insert is refused \<^verbatim>\<open>data\<close> is \<^verbatim>\<open>null\<close>, and reading \<^verbatim>\<open>data.id\<close> for the upsert
  throws a TypeError before the upsert is sent. The result of the upsert in the
  \<^verbatim>\<open>catch\<close> block is not looked at. The time stamps are left out.
\<close>

definition null_id :: exn where
  "null_id = Exn [] ''Cannot read properties of null (reading 'id')''"

definition insertCaseLaw_us_try :: "caseData \<Rightarrow> url \<Rightarrow> world \<Rightarrow> nat outcome \<times> world" where
  "insertCaseLaw_us_try caseData sourceUrl w =
     (case insert_caselaw_us caseData w of
        ((data, err), w1) \<Rightarrow>
          (case data of
             None \<Rightarrow> (Threw null_id, w1)
           | Some i \<Rightarrow>
               (case upsert_url sourceUrl ''success''
                       (\<lambda>r. r\<lparr>case_id := Some i, processed := True, l_status := ''success''\<rparr>)
                       w1 of
                  (Some urlInsertError, w2) \<Rightarrow> (Threw urlInsertError, w2)
                | (None, w2) \<Rightarrow> (Returned i, w2))))"

definition insertCaseLaw_us :: "caseData \<Rightarrow> url \<Rightarrow> world \<Rightarrow> nat outcome \<times> world" where
  "insertCaseLaw_us caseData sourceUrl w =
     (case insertCaseLaw_us_try caseData sourceUrl w of
        (Returned i, w1) \<Rightarrow> (Returned i, w1)
      | (Threw e, w1) \<Rightarrow>
          (case upsert_url sourceUrl ''error''
                  (\<lambda>r. r\<lparr>processed := False, l_status := ''error'',
                          error_message := Some (message e)\<rparr>) w1 of
             (_, w2) \<Rightarrow> (Threw e, w2)))"

text \<open>
  The Singapore driver:
  \<^verbatim>\<open>
  async function insertCaseLaw(caseData, sourceUrl) {
      try {
          if (caseData.citation) {
              const citationExists = await checkIfCitationExists(caseData.citation);
              if (citationExists) { console.log(...); return null; }
          }
          if (caseData.case_text.trim().length == 0) { console.log(...); return null; }
          const { data, error } = await supabase.from('caselaw_singapore')
              .insert([{ court_name: ..., citation: caseData.citation, country: 'Singapore' }])
              .select('id').single();
          ...
          if (error) throw error;
          const { error: urlInsertError } = await supabase.from('caselaw_scraping_urls')
              .upsert([{ url: sourceUrl, case_id: data.id, processed: true,
                         processing_date: new Date(), status: 'success',
                         country: 'Singapore' }], { onConflict: 'url' });
          if (urlInsertError) throw urlInsertError;
          return data.id;
      } catch (error) {
          await supabase.from('caselaw_scraping_urls')
              .upsert([{ url: sourceUrl, processed: false, processing_date: new Date(),
                         status: 'error', error_message: error.message,
                         country: 'Singapore' }], { onConflict: 'url' });
          console.error('Error inserting Singapore case law:', error);
          throw error;
      }
  }
  \<close>
  An \<^verbatim>\<open>undefined\<close> \<^verbatim>\<open>case_text\<close> makes \<^verbatim>\<open>.trim()\<close> throw a TypeError inside the \<^verbatim>\<open>try\<close>.
\<close>

definition undefined_trim :: exn where
  "undefined_trim = Exn [] ''Cannot read properties of undefined (reading 'trim')''"

definition insertCaseLaw_sg_try ::
  "caseData \<Rightarrow> url \<Rightarrow> world \<Rightarrow> nat option outcome \<times> world" where
  "insertCaseLaw_sg_try caseData sourceUrl w =
     (case (if truthy (citation caseData) then checkIfCitationExists (citation caseData) w
            else (False, w)) of
        (citationExists, w1) \<Rightarrow>
          if citationExists then (Returned None, w1)
          else
            (case case_text caseData of
               None \<Rightarrow> (Threw undefined_trim, w1)
             | Some t \<Rightarrow>
                 if length (trim t) = 0 then (Returned None, w1)
                 else
                   (case insert_caselaw_singapore caseData w1 of
                      ((data, err), w2) \<Rightarrow>
                        (case err of
                           Some e \<Rightarrow> (Threw e, w2)
                         | None \<Rightarrow>
                             (case data of
                                None \<Rightarrow> (Threw null_id, w2)
                              | Some i \<Rightarrow>
                                  (case upsert_url sourceUrl ''success''
                                          (\<lambda>r. r\<lparr>case_id := Some i, processed := True,
                                                  l_status := ''success'',
                                                  l_country := Some ''Singapore''\<rparr>) w2 of
                                     (Some urlInsertError, w3) \<Rightarrow> (Threw urlInsertError, w3)
                                   | (None, w3) \<Rightarrow> (Returned (Some i), w3)))))))"

definition insertCaseLaw_sg ::
  "caseData \<Rightarrow> url \<Rightarrow> world \<Rightarrow> nat option outcome \<times> world" where
  "insertCaseLaw_sg caseData sourceUrl w =
     (case insertCaseLaw_sg_try caseData sourceUrl w of
        (Returned v, w1) \<Rightarrow> (Returned v, w1)
      | (Threw e, w1) \<Rightarrow>
          (case upsert_url sourceUrl ''error''
                  (\<lambda>r. r\<lparr>processed := False, l_status := ''error'',
                          error_message := Some (message e),
                          l_country := Some ''Singapore''\<rparr>) w1 of
             (_, w2) \<Rightarrow> (Threw e, w2)))"

section \<open>The scrape tasks\<close>

text \<open>
  \<^verbatim>\<open>await response.json()\<close> where an object is expected: a body that is no JSON throws, an
  array has none of the fields.
\<close>

definition no_fields :: scraped where
  "no_fields = \<lparr>court_name = None, case_name = None, case_no = None, date = None,
                case_text = None, citation = None, status = None, error = None\<rparr>"

definition json_doc :: "response \<Rightarrow> scraped outcome" where
  "json_doc r =
     (case body r of
        Malformed \<Rightarrow> Threw (Exn [] ''Unexpected token in JSON'')
      | Urls us \<Rightarrow> Returned no_fields
      | Doc d \<Rightarrow> Returned d)"

text \<open>
  Where an array of urls is expected (\<^verbatim>\<open>!caseUrls || !caseUrls.length\<close>): an object has no
  \<^verbatim>\<open>length\<close> and counts as empty.
\<close>

definition json_urls :: "response \<Rightarrow> url list outcome" where
  "json_urls r =
     (case body r of
        Malformed \<Rightarrow> Threw (Exn [] ''Unexpected token in JSON'')
      | Urls us \<Rightarrow> Returned us
      | Doc d \<Rightarrow> Returned [])"

text \<open>Where the value is walked with \<^verbatim>\<open>for ... of\<close>: an object is not iterable.\<close>

definition json_iterable :: "response \<Rightarrow> url list outcome" where
  "json_iterable r =
     (case body r of
        Malformed \<Rightarrow> Threw (Exn [] ''Unexpected token in JSON'')
      | Urls us \<Rightarrow> Returned us
      | Doc d \<Rightarrow> Threw (Exn [] ''siteMapUrls is not iterable''))"

text \<open>\<^verbatim>\<open>{ url, status: 'error', error: msg }\<close>\<close>

definition error_result :: "url \<Rightarrow> string \<Rightarrow> result" where
  "error_result url msg = (no_fields\<lparr>status := Some ''error'', error := Some msg\<rparr>, url)"

text \<open>
  The task of \<^verbatim>\<open>us/caselaw_index.js\<close>:
  \<^verbatim>\<open>
  try {
      const response = await fetchWithRetry(fullUrl);
      if ('ok' in response && response.ok) {
          const data = await response.json();
          return { ...data, url };
      } else {
          return { url, status: 'error',
                   error: 'ok' in response ? `HTTP error! Status: ${response.status}`
                                           : response.error };
      }
  } catch (err) { return { url, status: "error", error: err.message }; }
  \<close>
\<close>

definition scrape_us :: "url \<Rightarrow> world \<Rightarrow> result \<times> world" where
  "scrape_us url w =
     (case fetchWithRetry (ScrapeCases url False) w of
        (Threw err, w1) \<Rightarrow> (error_result url (message err), w1)
      | (Returned (Failed u st er), w1) \<Rightarrow> (error_result url er, w1)
      | (Returned (Resp response), w1) \<Rightarrow>
          if ok response then
            (case json_doc response of
               Threw err \<Rightarrow> (error_result url (message err), w1)
             | Returned data \<Rightarrow> ((data, url), w1))
          else (error_result url (''HTTP error! Status: '' @ digits (http_status response)), w1))"

text \<open>\<^verbatim>\<open>!data.case_text || data.case_text.trim().length === 0\<close>\<close>

definition blank :: "string option \<Rightarrow> bool" where
  "blank v = (case v of None \<Rightarrow> True | Some s \<Rightarrow> s = [] \<or> length (trim s) = 0)"

text \<open>
  The task of the Singapore driver:
  \<^verbatim>\<open>
  try {
      let fullUrl = `${cloudFlareUrl}/scrape/cases?url=...`;
      let response = await fetchWithRetry(fullUrl);
      if ('ok' in response && response.ok) {
          let data = await response.json();
          if (!data.case_text || data.case_text.trim().length === 0) {
              fullUrl = `${cloudFlareUrl}/scrape/cases?url=...&isOld=true`;
              response = await fetchWithRetry(fullUrl);
              if ('ok' in response && response.ok) { data = await response.json(); }
          }
          return { ...data, url };
      } else {
          return { url, status: 'error', error: ... };
      }
  } catch (err) { return { url, status: "error", error: err.message }; }
  \<close>
\<close>

definition scrape_sg :: "url \<Rightarrow> world \<Rightarrow> result \<times> world" where
  "scrape_sg url w =
     (case fetchWithRetry (ScrapeCases url False) w of
        (Threw err, w1) \<Rightarrow> (error_result url (message err), w1)
      | (Returned (Failed u st er), w1) \<Rightarrow> (error_result url er, w1)
      | (Returned (Resp response), w1) \<Rightarrow>
          if ok response then
            (case json_doc response of
               Threw err \<Rightarrow> (error_result url (message err), w1)
             | Returned data \<Rightarrow>
                 if blank (case_text data) then
                   (case fetchWithRetry (ScrapeCases url True) w1 of
                      (Threw err, w2) \<Rightarrow> (error_result url (message err), w2)
                    | (Returned (Failed u st er), w2) \<Rightarrow> ((data, url), w2)
                    | (Returned (Resp response2), w2) \<Rightarrow>
                        if ok response2 then
                          (case json_doc response2 of
                             Threw err \<Rightarrow> (error_result url (message err), w2)
                           | Returned data2 \<Rightarrow> ((data2, url), w2))
                        else ((data, url), w2))
                 else ((data, url), w1))
          else (error_result url (''HTTP error! Status: '' @ digits (http_status response)), w1))"

section \<open>The Crawl Drivers\<close>

text \<open>
  \<^verbatim>\<open>await Promise.all(xs.map(async (x) => ...))\<close>: JavaScript starts every task, in the
  order of the array, before any of them goes on after its first \<^verbatim>\<open>await\<close>, so the first
  requests of all tasks go out before any reply is handled. Here each task is run to its
  end before the next one starts. The results are the same list in the same order; what
  differs is the order of the events inside one batch and, with a scripted network, which
  reply of the script meets which request of the batch. The properties below speak of
  what comes before and after a batch and of the set of requests of a batch, not of the
  order inside it.
\<close>

fun promise_all :: "('a \<Rightarrow> world \<Rightarrow> 'b \<times> world) \<Rightarrow> 'a list \<Rightarrow> world \<Rightarrow> 'b list \<times> world" where
  "promise_all f [] w = ([], w)"
| "promise_all f (x # xs) w =
     (case f x w of
        (y, w1) \<Rightarrow> (case promise_all f xs w1 of (ys, w2) \<Rightarrow> (y # ys, w2)))"

text \<open>\<^verbatim>\<open>xs.slice(a, b)\<close> for \<open>a \<le> b\<close>.\<close>

definition slice :: "nat \<Rightarrow> nat \<Rightarrow> 'a list \<Rightarrow> 'a list" where
  "slice a b xs = take (b - a) (drop a xs)"

text \<open>The six fields both drivers pass on to the record table.\<close>

definition caseData_of :: "scraped \<Rightarrow> caseData" where
  "caseData_of r =
     \<lparr>court_name = court_name r, case_name = case_name r, case_no = case_no r,
      date = date r, case_text = case_text r, citation = citation r\<rparr>"

text \<open>
  \<^verbatim>\<open>
  const checkPromises = urls.map(async (url) => {
      const isProcessed = await checkIfUrlProcessed(url);
      return { url, isProcessed };
  });
  const checkedUrls = await Promise.all(checkPromises);
  const urlsToProcess = checkedUrls.filter(item => !item.isProcessed).map(item => item.url);
  \<close>
\<close>

definition checked ::
  "(url \<Rightarrow> world \<Rightarrow> bool \<times> world) \<Rightarrow> url \<Rightarrow> world \<Rightarrow> (url \<times> bool) \<times> world" where
  "checked check url w = (case check url w of (isProcessed, w1) \<Rightarrow> ((url, isProcessed), w1))"

definition urlsToProcess_of :: "(url \<times> bool) list \<Rightarrow> url list" where
  "urlsToProcess_of checkedUrls = map fst (filter (\<lambda>item. \<not> snd item) checkedUrls)"

subsection \<open>United States case law\<close>

text \<open>
  \<^verbatim>\<open>
  for (const result of results) {
      if (result.status === 'error') { console.log(result); continue; }
      try {
          await insertCaseLaw({ court_name: result.court_name, ..., citation: result.citation,
                                country: 'US' }, result.url);
      } catch (error) { result.status = 'error'; result.error = error.message; ... }
  }
  \<close>
  The results are dropped after the loop, so the marks set in the \<^verbatim>\<open>catch\<close> are not kept.
\<close>

fun storing_us :: "result list \<Rightarrow> world \<Rightarrow> world" where
  "storing_us [] w = w"
| "storing_us (result # results) w =
     (if status (fst result) = Some ''error'' then storing_us results w
      else (case insertCaseLaw_us (caseData_of (fst result)) (snd result) w of
              (r, w1) \<Rightarrow> storing_us results w1))"

text \<open>
  \<^verbatim>\<open>CONFIG\<close> of \<^verbatim>\<open>us/caselaw_index.js\<close>; the loops read these two of its entries.
\<close>

record config =
  filterBatchSize :: nat
  cloudFlareBatchSize :: nat

definition CONFIG :: config where
  "CONFIG = \<lparr>filterBatchSize = 10000, cloudFlareBatchSize = 100\<rparr>"

text \<open>
  \<^verbatim>\<open>
  for (let j = 0; j < urlsToProcess.length; j += CONFIG.cloudFlareBatchSize) {
      const cloudFlareBatch = urlsToProcess.slice(j, j + CONFIG.cloudFlareBatchSize);
      const fetchPromises = cloudFlareBatch.map(async (url) => { ... });
      const results = await Promise.all(fetchPromises);
      for (const result of results) { ... }
      await sleep(500);
  }
  \<close>
  With a batch size of 0 the index never moves and the loop does not end: that is the value
  \<open>None\<close>.
\<close>

function cloudFlareLoop :: "config \<Rightarrow> nat \<Rightarrow> url list \<Rightarrow> world \<Rightarrow> world option" where
  "cloudFlareLoop cfg j urlsToProcess w =
     (if j < length urlsToProcess then
        (if cloudFlareBatchSize cfg = 0 then None
         else
           (case promise_all scrape_us
                   (slice j (j + cloudFlareBatchSize cfg) urlsToProcess) w of
              (results, w1) \<Rightarrow>
                cloudFlareLoop cfg (j + cloudFlareBatchSize cfg) urlsToProcess
                  (sleep 500 (storing_us results w1))))
      else Some w)"
  by pat_completeness auto
termination
  by (relation "measure (\<lambda>(cfg, j, urlsToProcess, w). length urlsToProcess - j)") auto

declare cloudFlareLoop.simps [simp del]

text \<open>
  \<^verbatim>\<open>
  for (let i = 0; i < pageUrls.length; i += CONFIG.filterBatchSize) {
      const filterBatch = pageUrls.slice(i, i + CONFIG.filterBatchSize);
      const checkPromises = filterBatch.map(...);
      const checkedUrls = await Promise.all(checkPromises);
      const urlsToProcess = ...;
      for (let j = 0; ...) { ... }
  }
  \<close>
  The loop over \<^verbatim>\<open>j\<close> is inside the loop over \<^verbatim>\<open>i\<close>.
\<close>

function filterLoop :: "config \<Rightarrow> nat \<Rightarrow> url list \<Rightarrow> world \<Rightarrow> world option" where
  "filterLoop cfg i pageUrls w =
     (if i < length pageUrls then
        (if filterBatchSize cfg = 0 then None
         else
           (case promise_all (checked checkIfUrlProcessed_us)
                   (slice i (i + filterBatchSize cfg) pageUrls) w of
              (checkedUrls, w1) \<Rightarrow>
                (case cloudFlareLoop cfg 0 (urlsToProcess_of checkedUrls) w1 of
                   None \<Rightarrow> None
                 | Some w2 \<Rightarrow> filterLoop cfg (i + filterBatchSize cfg) pageUrls w2)))
      else Some w)"
  by pat_completeness auto
termination
  by (relation "measure (\<lambda>(cfg, i, pageUrls, w). length pageUrls - i)") auto

declare filterLoop.simps [simp del]

text \<open>
  \<^verbatim>\<open>
  async function scrapFindLaws() {
      let siteMapResponse = await fetch(`${cloudFlareUrl}/sitemaps/cases`);
      let siteMapUrls = await siteMapResponse.json();
      for (let siteMapUrl of siteMapUrls) {
          let pageUrlRes = await fetch(`${cloudFlareUrl}/pages?sitemap=${siteMapUrl}`)
          let pageUrls = await pageUrlRes.json()
          for (let i = 0; ...) { ... }
          await sleep(1000);
      }
  }
  \<close>
  Nothing is caught here: a rejected request or a body that is no JSON ends the run.
\<close>

fun siteMapLoop :: "config \<Rightarrow> url list \<Rightarrow> world \<Rightarrow> (unit outcome \<times> world) option" where
  "siteMapLoop cfg [] w = Some (Returned (), w)"
| "siteMapLoop cfg (siteMapUrl # siteMapUrls) w =
     (case fetch (Pages siteMapUrl) w of
        (NetworkError m, w1) \<Rightarrow> Some (Threw (Exn [] m), w1)
      | (Got pageUrlRes, w1) \<Rightarrow>
          (case json_urls pageUrlRes of
             Threw e \<Rightarrow> Some (Threw e, w1)
           | Returned pageUrls \<Rightarrow>
               (case filterLoop cfg 0 pageUrls w1 of
                  None \<Rightarrow> None
                | Some w2 \<Rightarrow> siteMapLoop cfg siteMapUrls (sleep 1000 w2))))"

definition scrapFindLaws :: "config \<Rightarrow> world \<Rightarrow> (unit outcome \<times> world) option" where
  "scrapFindLaws cfg w =
     (case fetch Sitemaps w of
        (NetworkError m, w1) \<Rightarrow> Some (Threw (Exn [] m), w1)
      | (Got siteMapResponse, w1) \<Rightarrow>
          (case json_iterable siteMapResponse of
             Threw e \<Rightarrow> Some (Threw e, w1)
           | Returned siteMapUrls \<Rightarrow> siteMapLoop cfg siteMapUrls w1))"

subsection \<open>Singapore case law\<close>

text \<open>
  \<^verbatim>\<open>
  for (const result of results) {
      if (result.status === 'error') { console.error(...); continue; }
      try { await insertCaseLaw(result, result.url); }
      catch (error) { console.error(...); }
  }
  \<close>
\<close>

fun storing_sg :: "result list \<Rightarrow> world \<Rightarrow> world" where
  "storing_sg [] w = w"
| "storing_sg (result # results) w =
     (if status (fst result) = Some ''error'' then storing_sg results w
      else (case insertCaseLaw_sg (caseData_of (fst result)) (snd result) w of
              (r, w1) \<Rightarrow> storing_sg results w1))"

text \<open>
  \<^verbatim>\<open>CONFIG\<close> of the Singapore driver. Its \<^verbatim>\<open>filterBatchSize\<close> entry is read nowhere.
\<close>

record config_sg =
  maxPages :: nat
  maxEntriesPerPage :: nat
  requestInterval :: nat

definition CONFIG_sg :: config_sg where
  "CONFIG_sg = \<lparr>maxPages = 100000000, maxEntriesPerPage = 10, requestInterval = 1000\<rparr>"

text \<open>
  How the page loop was left: by the \<^verbatim>\<open>break\<close> after "No cases found on page", after
  "Failed to fetch cases for page", by its condition
  \<^verbatim>\<open>pageIndex <= CONFIG.maxPages\<close>, or by an exception that the outer \<^verbatim>\<open>catch\<close> logs as
  "Fatal error".
\<close>

datatype stopped = NoCasesFound | FailedToFetch | MaxPages | FatalError exn

text \<open>
  \<^verbatim>\<open>
  while (hasMorePages && pageIndex <= CONFIG.maxPages) {
      const url = `${cloudFlareUrl}/sitemap/cases?index=${pageIndex}`;
      const casesResponse = await fetch(url);
      if (!casesResponse.ok) { ...; hasMorePages = false; continue; }
      const caseUrls = await casesResponse.json();
      if (!caseUrls || !caseUrls.length) { ...; hasMorePages = false; break; }
      const casesToProcess = caseUrls.slice(0, CONFIG.maxEntriesPerPage);
      const checkPromises = casesToProcess.map(...);
      const checkedUrls = await Promise.all(checkPromises);
      const urlsToProcess = ...;
      const fetchPromises = urlsToProcess.map(async (url) => { ... });
      const results = await Promise.all(fetchPromises);
      for (const result of results) { ... }
      if (pageIndex < CONFIG.maxPages) { await sleep(CONFIG.requestInterval); }
      pageIndex++;
  }
  \<close>
\<close>

function pageLoop :: "config_sg \<Rightarrow> nat \<Rightarrow> world \<Rightarrow> stopped \<times> world" where
  "pageLoop cfg pageIndex w =
     (if pageIndex \<le> maxPages cfg then
        (case fetch (SitemapCases pageIndex) w of
           (NetworkError m, w1) \<Rightarrow> (FatalError (Exn [] m), w1)
         | (Got casesResponse, w1) \<Rightarrow>
             if \<not> ok casesResponse then (FailedToFetch, w1)
             else
               (case json_urls casesResponse of
                  Threw e \<Rightarrow> (FatalError e, w1)
                | Returned caseUrls \<Rightarrow>
                    if caseUrls = [] then (NoCasesFound, w1)
                    else
                      (case promise_all (checked checkIfUrlProcessed_sg)
                              (slice 0 (maxEntriesPerPage cfg) caseUrls) w1 of
                         (checkedUrls, w2) \<Rightarrow>
                           (case promise_all scrape_sg (urlsToProcess_of checkedUrls) w2 of
                              (results, w3) \<Rightarrow>
                                pageLoop cfg (pageIndex + 1)
                                  (let w4 = storing_sg results w3
                                   in if pageIndex < maxPages cfg
                                      then sleep (requestInterval cfg) w4 else w4)))))
      else (MaxPages, w))"
  by pat_completeness auto
termination
  by (relation "measure (\<lambda>(cfg, pageIndex, w). Suc (maxPages cfg) - pageIndex)") auto

declare pageLoop.simps [simp del]

text \<open>\<^verbatim>\<open>scrapeSingaporeCaseLaws\<close> starts the loop at \<^verbatim>\<open>let pageIndex = 340\<close>.\<close>

definition scrapeSingaporeCaseLaws :: "config_sg \<Rightarrow> world \<Rightarrow> stopped \<times> world" where
  "scrapeSingaporeCaseLaws cfg w = pageLoop cfg 340 w"

section \<open>A starting world\<close>

text \<open>Empty tables, the given network script and the given store script.\<close>

definition fresh :: "reply list \<Rightarrow> exn option list \<Rightarrow> world" where
  "fresh replies faults =
     \<lparr>http = replies, store_faults = faults, caselaw_us = [], caselaw_singapore = [],
      caselaw_scraping_urls = [], sections = [], serial = 1, trace = []\<rparr>"

definition refusal :: response where
  "refusal = Response False 503 Malformed"

text \<open>A store error, a judgment as the Singapore worker returns it, and two replies.\<close>

definition outage :: exn where
  "outage = Exn ''503'' ''Service Unavailable''"

definition ruling :: scraped where
  "ruling = no_fields\<lparr>case_name := Some ''A v B'', case_text := Some ''Appeal dismissed.'',
                      citation := Some ''[2025] SGHC 27''\<rparr>"

definition found :: "scraped \<Rightarrow> reply" where
  "found d = Got (Response True 200 (Doc d))"

definition listing :: "url list \<Rightarrow> reply" where
  "listing us = Got (Response True 200 (Urls us))"

section \<open>Notions used in the properties\<close>

text \<open>The next store call is answered without error.\<close>

definition answered :: "world \<Rightarrow> bool" where
  "answered w = (case store_faults w of [] \<Rightarrow> True | f # fs \<Rightarrow> f = None)"

text \<open>The fate of the store call after the next \<open>n\<close> ones.\<close>

definition fault_at :: "nat \<Rightarrow> world \<Rightarrow> exn option" where
  "fault_at n w = (if n < length (store_faults w) then store_faults w ! n else None)"

text \<open>The rows with a given citation, and the ledger rows with a given url.\<close>

definition with_citation :: "string \<Rightarrow> case_row list \<Rightarrow> case_row list" where
  "with_citation c rows = filter (\<lambda>r. citation (row_data r) = Some c) rows"

definition keyed :: "url \<Rightarrow> (url \<times> ledger_row) list \<Rightarrow> (url \<times> ledger_row) list" where
  "keyed url rows = filter (\<lambda>(u, r). u = url) rows"

text \<open>
  The events of fetching and storing the locators of a page: every event except a listing
  request and an existence check on the ledger. From \<open>w\<close> to \<open>w'\<close> the trace has grown by
  such events only.
\<close>

definition page_work :: "event \<Rightarrow> bool" where
  "page_work e =
     (case e of
        Fetch req \<Rightarrow> (case req of ScrapeCases u b \<Rightarrow> True | _ \<Rightarrow> False)
      | Select t k \<Rightarrow> t \<noteq> ''caselaw_scraping_urls''
      | _ \<Rightarrow> True)"

definition works :: "world \<Rightarrow> world \<Rightarrow> bool" where
  "works w w' \<longleftrightarrow> (\<exists>es. trace w' = trace w @ es \<and> list_all page_work es)"

text \<open>The listing requests of the Singapore driver.\<close>

definition is_listing :: "event \<Rightarrow> bool" where
  "is_listing e = (case e of Fetch (SitemapCases k) \<Rightarrow> True | _ \<Rightarrow> False)"

text \<open>No non-empty citation is carried by two rows.\<close>

definition unique_citations :: "case_row list \<Rightarrow> bool" where
  "unique_citations rows \<longleftrightarrow> (\<forall>c. c \<noteq> [] \<longrightarrow> length (with_citation c rows) \<le> 1)"

text \<open>From \<open>w\<close> to \<open>w'\<close> the Singapore record table and the store script are the same.\<close>

definition same_store :: "world \<Rightarrow> world \<Rightarrow> bool" where
  "same_store w w' \<longleftrightarrow>
     caselaw_singapore w' = caselaw_singapore w \<and> store_faults w' = store_faults w"

text \<open>Every row has a text that is not blank.\<close>

definition with_text :: "case_row list \<Rightarrow> bool" where
  "with_text rows = list_all (\<lambda>r. \<not> blank (case_text (row_data r))) rows"

text \<open>
  The locators requested from the Fetcher by a list of events (first requests only, not the
  second pass of the Singapore driver), and the number of inserts into the US record table.
\<close>

definition first_pass :: "event \<Rightarrow> url list" where
  "first_pass e =
     (case e of Fetch (ScrapeCases u isOld) \<Rightarrow> (if isOld then [] else [u]) | _ \<Rightarrow> [])"

definition fetched_urls :: "event list \<Rightarrow> url list" where
  "fetched_urls es = concat (map first_pass es)"

definition inserts :: "event list \<Rightarrow> nat" where
  "inserts es = length (filter (\<lambda>e. e = Insert ''caselaw_us'') es)"

text \<open>
  From \<open>w\<close> to \<open>w'\<close> the trace has grown, and the locators requested from the Fetcher in
  between are those of the set \<open>us\<close>; the US record table was sent \<open>n\<close> inserts in between.
\<close>

definition asks :: "world \<Rightarrow> url set \<Rightarrow> world \<Rightarrow> bool" where
  "asks w us w' \<longleftrightarrow> (\<exists>es. trace w' = trace w @ es \<and> set (fetched_urls es) = us)"

definition inserted :: "world \<Rightarrow> nat \<Rightarrow> world \<Rightarrow> bool" where
  "inserted w n w' \<longleftrightarrow> (\<exists>es. trace w' = trace w @ es \<and> inserts es = n)"

text \<open>The store script never refuses two calls in a row.\<close>

fun never_twice :: "exn option list \<Rightarrow> bool" where
  "never_twice (Some e # Some e' # fs) = False"
| "never_twice (f # fs) = never_twice fs"
| "never_twice [] = True"

text \<open>
  The ledger has exactly one row for the url, with status \<^verbatim>\<open>success\<close> or \<^verbatim>\<open>error\<close>; the
  ledger marks the url as processed; the ledger has one row per url and the store never
  refuses two calls in a row.
\<close>

definition recorded :: "url \<Rightarrow> (url \<times> ledger_row) list \<Rightarrow> bool" where
  "recorded u rows \<longleftrightarrow>
     length (keyed u rows) = 1
     \<and> (\<exists>row. map_of rows u = Some row
           \<and> (l_status row = ''success'' \<or> l_status row = ''error''))"

definition marked :: "url \<Rightarrow> (url \<times> ledger_row) list \<Rightarrow> bool" where
  "marked u rows = (case map_of rows u of None \<Rightarrow> False | Some r \<Rightarrow> processed r)"

definition sound :: "world \<Rightarrow> bool" where
  "sound w \<longleftrightarrow> distinct (map fst (caselaw_scraping_urls w)) \<and> never_twice (store_faults w)"

text \<open>The scrape results that the storing loop passes on to \<^verbatim>\<open>insertCaseLaw\<close>.\<close>

definition stored :: "result list \<Rightarrow> result list" where
  "stored results = filter (\<lambda>r. status (fst r) \<noteq> Some ''error'') results"

text \<open>
  What the ledger owes to the scrape results \<open>rs\<close> from \<open>w\<close> to \<open>w'\<close>: the rows of a url
  none of whose results is passed on are the same; a ledger with one row per url is still
  one, and a url that was recorded still is; the store script has moved on; and, when \<open>w\<close>
  is sound, the url of every result passed on is recorded.
\<close>

definition booked :: "world \<Rightarrow> result list \<Rightarrow> world \<Rightarrow> bool" where
  "booked w rs w' \<longleftrightarrow>
     (\<forall>u. (\<forall>r\<in>set rs. snd r = u \<longrightarrow> status (fst r) = Some ''error'') \<longrightarrow>
          keyed u (caselaw_scraping_urls w') = keyed u (caselaw_scraping_urls w))
   \<and> (distinct (map fst (caselaw_scraping_urls w)) \<longrightarrow>
          distinct (map fst (caselaw_scraping_urls w'))
        \<and> (\<forall>u. recorded u (caselaw_scraping_urls w) \<longrightarrow> recorded u (caselaw_scraping_urls w')))
   \<and> (\<exists>n. store_faults w' = drop n (store_faults w))
   \<and> (sound w \<longrightarrow>
          (\<forall>r\<in>set rs. status (fst r) \<noteq> Some ''error'' \<longrightarrow>
             recorded (snd r) (caselaw_scraping_urls w')))"

definition tracks :: "world \<Rightarrow> result list \<Rightarrow> world \<Rightarrow> bool" where
  "tracks w rs w' \<longleftrightarrow> asks w (snd ` set rs) w' \<and> booked w rs w'"

text \<open>
  The scrape results a run of the US driver obtains, in the order it obtains them: the
  \<^verbatim>\<open>results\<close> of every dispatch batch, collected along the loops of \<^verbatim>\<open>scrapFindLaws\<close>. The
  code drops each \<^verbatim>\<open>results\<close> array after its storing loop; the properties need to speak of
  them.
\<close>

function cloudFlareResults :: "config \<Rightarrow> nat \<Rightarrow> url list \<Rightarrow> world \<Rightarrow> result list" where
  "cloudFlareResults cfg j urlsToProcess w =
     (if j < length urlsToProcess \<and> cloudFlareBatchSize cfg \<noteq> 0 then
        (case promise_all scrape_us
                (slice j (j + cloudFlareBatchSize cfg) urlsToProcess) w of
           (results, w1) \<Rightarrow>
             results @ cloudFlareResults cfg (j + cloudFlareBatchSize cfg) urlsToProcess
                         (sleep 500 (storing_us results w1)))
      else [])"
  by pat_completeness auto
termination
  by (relation "measure (\<lambda>(cfg, j, urlsToProcess, w). length urlsToProcess - j)") auto

declare cloudFlareResults.simps [simp del]

function filterResults :: "config \<Rightarrow> nat \<Rightarrow> url list \<Rightarrow> world \<Rightarrow> result list" where
  "filterResults cfg i pageUrls w =
     (if i < length pageUrls \<and> filterBatchSize cfg \<noteq> 0 then
        (case promise_all (checked checkIfUrlProcessed_us)
                (slice i (i + filterBatchSize cfg) pageUrls) w of
           (checkedUrls, w1) \<Rightarrow>
             (case cloudFlareLoop cfg 0 (urlsToProcess_of checkedUrls) w1 of
                None \<Rightarrow> []
              | Some w2 \<Rightarrow>
                  cloudFlareResults cfg 0 (urlsToProcess_of checkedUrls) w1
                  @ filterResults cfg (i + filterBatchSize cfg) pageUrls w2))
      else [])"
  by pat_completeness auto
termination
  by (relation "measure (\<lambda>(cfg, i, pageUrls, w). length pageUrls - i)") auto

declare filterResults.simps [simp del]

fun siteMapResults :: "config \<Rightarrow> url list \<Rightarrow> world \<Rightarrow> result list" where
  "siteMapResults cfg [] w = []"
| "siteMapResults cfg (siteMapUrl # siteMapUrls) w =
     (case fetch (Pages siteMapUrl) w of
        (NetworkError m, w1) \<Rightarrow> []
      | (Got pageUrlRes, w1) \<Rightarrow>
          (case json_urls pageUrlRes of
             Threw e \<Rightarrow> []
           | Returned pageUrls \<Rightarrow>
               (case filterLoop cfg 0 pageUrls w1 of
                  None \<Rightarrow> []
                | Some w2 \<Rightarrow>
                    filterResults cfg 0 pageUrls w1
                    @ siteMapResults cfg siteMapUrls (sleep 1000 w2))))"

definition scrapFindLaws_results :: "config \<Rightarrow> world \<Rightarrow> result list" where
  "scrapFindLaws_results cfg w =
     (case fetch Sitemaps w of
        (NetworkError m, w1) \<Rightarrow> []
      | (Got siteMapResponse, w1) \<Rightarrow>
          (case json_iterable siteMapResponse of
             Threw e \<Rightarrow> []
           | Returned siteMapUrls \<Rightarrow> siteMapResults cfg siteMapUrls w1))"

section \<open>Running the model on concrete inputs\<close>

text \<open>The defining equations, for evaluating the model by rewriting.\<close>

lemmas run_defs =
  fresh_def fetch_def emit_def sleep_def store_call_def maybeSingle_def single_def
  select_processed_def select_citation_def select_section_def insert_caselaw_us_def
  insert_caselaw_singapore_def upsert_url_def no_row_def checkIfUrlProcessed_us_def
  checkIfUrlProcessed_sg_def checkIfCitationExists_def insertCaseLaw_us_try_def
  insertCaseLaw_us_def insertCaseLaw_sg_try_def insertCaseLaw_sg_def json_doc_def
  json_urls_def json_iterable_def scrapFindLaws_def error_result_def scrape_us_def
  scrape_sg_def blank_def trim_def whitespace_def truthy_def slice_def caseData_of_def checked_def urlsToProcess_of_def
  fetchWithRetry_def fetchWithRetry_from.simps cloudFlareLoop.simps filterLoop.simps
  pageLoop.simps scrapeSingaporeCaseLaws_def CONFIG_def CONFIG_sg_def
  ruling_def found_def listing_def refusal_def outage_def no_fields_def null_id_def


lemmas results_defs = scrapFindLaws_results_def filterResults.simps cloudFlareResults.simps
section \<open>The Fetcher: bounded retry\<close>

lemma retry_refused:
  "\<forall>r\<in>set rs. \<not> ok r \<Longrightarrow> i + length rs < retries \<Longrightarrow> http w = map Got rs @ rest \<Longrightarrow>
   fetchWithRetry_from i url retries delayMs w =
   fetchWithRetry_from (i + length rs) url retries delayMs
     (w\<lparr>http := rest,
        trace := trace w @ concat (replicate (length rs) [Fetch url, Sleep delayMs])\<rparr>)"
proof (induction rs arbitrary: i w)
  case Nil
  then show ?case by (cases w) auto
next
  case (Cons r rs)
  let ?w1 = "sleep delayMs (emit (Fetch url) (w\<lparr>http := map Got rs @ rest\<rparr>))"
  have step: "fetchWithRetry_from i url retries delayMs w =
              fetchWithRetry_from (i + 1) url retries delayMs ?w1"
    using Cons.prems by (subst fetchWithRetry_from.simps) (auto simp add: fetch_def)
  have "fetchWithRetry_from (i + 1) url retries delayMs ?w1 =
        fetchWithRetry_from (i + 1 + length rs) url retries delayMs
          (?w1\<lparr>http := rest,
               trace := trace ?w1 @ concat (replicate (length rs) [Fetch url, Sleep delayMs])\<rparr>)"
    using Cons.prems by (intro Cons.IH) (simp_all add: sleep_def emit_def)
  with step show ?case by (simp add: sleep_def emit_def)
qed

lemma retry_last_refused:
  "\<not> ok r \<Longrightarrow> Suc i = retries \<Longrightarrow> http w = Got r # rest \<Longrightarrow>
   fetchWithRetry_from i url retries delayMs w =
   (Returned (Failed url ''error'' ''Failed after multiple retries''),
    w\<lparr>http := rest, trace := trace w @ [Fetch url]\<rparr>)"
  by (subst fetchWithRetry_from.simps, subst fetchWithRetry_from.simps)
     (auto simp add: fetch_def emit_def)

lemma retry_throws:
  "i < retries \<Longrightarrow> http w = NetworkError m # rest \<Longrightarrow>
   fetchWithRetry_from i url retries delayMs w =
   (Threw (Exn [] m), w\<lparr>http := rest, trace := trace w @ [Fetch url]\<rparr>)"
  by (subst fetchWithRetry_from.simps) (simp add: fetch_def emit_def)

lemma retry_ok:
  "i < retries \<Longrightarrow> http w = Got r # rest \<Longrightarrow> ok r \<Longrightarrow>
   fetchWithRetry_from i url retries delayMs w =
   (Returned (Resp r), w\<lparr>http := rest, trace := trace w @ [Fetch url]\<rparr>)"
  by (subst fetchWithRetry_from.simps) (simp add: fetch_def emit_def)

text \<open>
  Claim C5, as amended. With the default arguments \<^verbatim>\<open>fetchWithRetry\<close> makes at most 5
  requests and pauses a fixed 2000 ms between them. It goes on to the next request only
  after a response with a non-success status: after 5 of them it returns the object
  \<^verbatim>\<open>{url, status: "error", error: "Failed after multiple retries"}\<close> without raising, and
  a successful response met earlier is returned as it is. A rejected \<^verbatim>\<open>fetch\<close> (a
  network exception) is not retried: it leaves \<^verbatim>\<open>fetchWithRetry\<close> as a thrown error at the
  request where it happens.
\<close>

theorem fetchWithRetry_policy:
  assumes refused: "\<forall>r\<in>set rs. \<not> ok r"
      and script: "http w = map Got rs @ rest"
  shows "(length rs = 5 \<longrightarrow>
            fetchWithRetry url w =
              (Returned (Failed url ''error'' ''Failed after multiple retries''),
               w\<lparr>http := rest,
                  trace := trace w @ concat (replicate 4 [Fetch url, Sleep 2000]) @ [Fetch url]\<rparr>))
       \<and> (length rs < 5 \<longrightarrow>
            (\<forall>r rest'. rest = Got r # rest' \<and> ok r \<longrightarrow>
               fetchWithRetry url w =
                 (Returned (Resp r),
                  w\<lparr>http := rest',
                     trace := trace w @ concat (replicate (length rs) [Fetch url, Sleep 2000])
                                @ [Fetch url]\<rparr>))
          \<and> (\<forall>m rest'. rest = NetworkError m # rest' \<longrightarrow>
               fetchWithRetry url w =
                 (Threw (Exn [] m),
                  w\<lparr>http := rest',
                     trace := trace w @ concat (replicate (length rs) [Fetch url, Sleep 2000])
                                @ [Fetch url]\<rparr>)))"
proof (intro conjI impI allI)
  assume len: "length rs = 5"
  then obtain rs' r where rs: "rs = rs' @ [r]" and len': "length rs' = 4"
    by (cases rs rule: rev_cases) auto
  have "fetchWithRetry_from 0 url 5 2000 w =
        fetchWithRetry_from (0 + length rs') url 5 2000
          (w\<lparr>http := Got r # rest,
             trace := trace w @ concat (replicate (length rs') [Fetch url, Sleep 2000])\<rparr>)"
    using refused script rs len' by (intro retry_refused) simp_all
  also have "\<dots> = (Returned (Failed url ''error'' ''Failed after multiple retries''),
               w\<lparr>http := rest,
                  trace := trace w @ concat (replicate 4 [Fetch url, Sleep 2000]) @ [Fetch url]\<rparr>)"
    using refused rs len' by (subst retry_last_refused [where r = r and rest = rest]) simp_all
  finally show "fetchWithRetry url w =
              (Returned (Failed url ''error'' ''Failed after multiple retries''),
               w\<lparr>http := rest,
                  trace := trace w @ concat (replicate 4 [Fetch url, Sleep 2000]) @ [Fetch url]\<rparr>)"
    by (simp add: fetchWithRetry_def)
next
  fix r rest'
  assume len: "length rs < 5" and nxt: "rest = Got r # rest' \<and> ok r"
  have "fetchWithRetry_from 0 url 5 2000 w =
        fetchWithRetry_from (0 + length rs) url 5 2000
          (w\<lparr>http := rest,
             trace := trace w @ concat (replicate (length rs) [Fetch url, Sleep 2000])\<rparr>)"
    using refused script len by (intro retry_refused) simp_all
  also have "\<dots> = (Returned (Resp r),
                  w\<lparr>http := rest',
                     trace := trace w @ concat (replicate (length rs) [Fetch url, Sleep 2000])
                                @ [Fetch url]\<rparr>)"
    using len nxt by (subst retry_ok [where r = r and rest = rest']) simp_all
  finally show "fetchWithRetry url w =
                 (Returned (Resp r),
                  w\<lparr>http := rest',
                     trace := trace w @ concat (replicate (length rs) [Fetch url, Sleep 2000])
                                @ [Fetch url]\<rparr>)"
    by (simp add: fetchWithRetry_def)
next
  fix m rest'
  assume len: "length rs < 5" and nxt: "rest = NetworkError m # rest'"
  have "fetchWithRetry_from 0 url 5 2000 w =
        fetchWithRetry_from (0 + length rs) url 5 2000
          (w\<lparr>http := rest,
             trace := trace w @ concat (replicate (length rs) [Fetch url, Sleep 2000])\<rparr>)"
    using refused script len by (intro retry_refused) simp_all
  also have "\<dots> = (Threw (Exn [] m),
                  w\<lparr>http := rest',
                     trace := trace w @ concat (replicate (length rs) [Fetch url, Sleep 2000])
                                @ [Fetch url]\<rparr>)"
    using len nxt by (subst retry_throws [where m = m and rest = rest']) simp_all
  finally show "fetchWithRetry url w =
                 (Threw (Exn [] m),
                  w\<lparr>http := rest',
                     trace := trace w @ concat (replicate (length rs) [Fetch url, Sleep 2000])
                                @ [Fetch url]\<rparr>)"
    by (simp add: fetchWithRetry_def)
qed

text \<open>
  A witness for C5: five refusals give the marker after five requests and four pauses; one
  refusal followed by a success gives the response; one refusal followed by a network
  exception throws.
\<close>

theorem fetchWithRetry_policy_witness:
  "fetchWithRetry (ScrapeCases ''u'' False)
     (fresh (map Got [refusal, refusal, refusal, refusal, refusal]) []) =
     (Returned (Failed (ScrapeCases ''u'' False) ''error'' ''Failed after multiple retries''),
      (fresh [] [])\<lparr>trace :=
        [Fetch (ScrapeCases ''u'' False), Sleep 2000, Fetch (ScrapeCases ''u'' False), Sleep 2000,
         Fetch (ScrapeCases ''u'' False), Sleep 2000, Fetch (ScrapeCases ''u'' False), Sleep 2000,
         Fetch (ScrapeCases ''u'' False)]\<rparr>)
   \<and> fetchWithRetry (ScrapeCases ''u'' False)
       (fresh [Got refusal, Got (Response True 200 (Urls []))] []) =
       (Returned (Resp (Response True 200 (Urls []))),
        (fresh [] [])\<lparr>trace :=
          [Fetch (ScrapeCases ''u'' False), Sleep 2000, Fetch (ScrapeCases ''u'' False)]\<rparr>)
   \<and> fetchWithRetry (ScrapeCases ''u'' False)
       (fresh [Got refusal, NetworkError ''down''] []) =
       (Threw (Exn [] ''down''),
        (fresh [] [])\<lparr>trace :=
          [Fetch (ScrapeCases ''u'' False), Sleep 2000, Fetch (ScrapeCases ''u'' False)]\<rparr>)"
proof -
  have four: "replicate 4 x = [x, x, x, x]" for x :: "event list"
    by (simp add: numeral_eq_Suc)
  show ?thesis
  using
    fetchWithRetry_policy [of "[refusal, refusal, refusal, refusal, refusal]"
      "fresh (map Got [refusal, refusal, refusal, refusal, refusal]) []" "[]"
      "ScrapeCases ''u'' False"]
    fetchWithRetry_policy [of "[refusal]"
      "fresh [Got refusal, Got (Response True 200 (Urls []))] []"
      "[Got (Response True 200 (Urls []))]" "ScrapeCases ''u'' False"]
    fetchWithRetry_policy [of "[refusal]"
      "fresh [Got refusal, NetworkError ''down''] []"
      "[NetworkError ''down'']" "ScrapeCases ''u'' False"]
  by (simp add: fresh_def refusal_def four)
qed

text \<open>
  Claim C5 as stated fails: a network exception on the first request is not retried,
  although the next request would have succeeded, and it is raised, not turned into the
  marker.
\<close>

theorem fetchWithRetry_network_exception:
  "fetchWithRetry (ScrapeCases ''u'' False)
     (fresh [NetworkError ''down'', Got (Response True 200 (Urls []))] []) =
     (Threw (Exn [] ''down''),
      (fresh [Got (Response True 200 (Urls []))] [])\<lparr>trace :=
        [Fetch (ScrapeCases ''u'' False)]\<rparr>)"
  by (simp add: fetchWithRetry_def fetchWithRetry_from.simps fetch_def emit_def fresh_def)

section \<open>The existence checks: lookup errors\<close>

lemma maybeSingle_error: "snd (maybeSingle rows) \<noteq> None \<Longrightarrow> fst (maybeSingle rows) = None"
  by (auto simp add: maybeSingle_def split: list.splits)

lemma select_processed_error:
  "snd (fst (select_processed url w)) \<noteq> None \<Longrightarrow> fst (fst (select_processed url w)) = None"
  by (auto simp add: select_processed_def maybeSingle_error split: prod.splits option.splits)

text \<open>
  Claim C7. At the check made before fetching, a query that comes back with an error makes
  the check answer \<open>False\<close>: \<^verbatim>\<open>checkIfUrlProcessed\<close> of the US case-law driver and
  \<^verbatim>\<open>checkSectionExistsByUrl\<close> of the acts driver both report the URL as not existing,
  whatever the error is (a refused call, or the client's own \<^verbatim>\<open>PGRST116\<close>), and neither
  can raise: their results are plain booleans. The Singapore \<^verbatim>\<open>checkIfUrlProcessed\<close>
  answers \<open>False\<close> for every URL.
\<close>

theorem lookup_error_is_not_processed:
  "(snd (fst (select_processed url w)) \<noteq> None \<longrightarrow> \<not> fst (checkIfUrlProcessed_us url w))
   \<and> (snd (fst (select_section (extractActIdentifierFromUrl url) w)) \<noteq> None \<longrightarrow>
        \<not> fst (checkSectionExistsByUrl url w))
   \<and> \<not> fst (checkIfUrlProcessed_sg url w)"
proof (intro conjI impI)
  assume "snd (fst (select_processed url w)) \<noteq> None"
  from select_processed_error [OF this] show "\<not> fst (checkIfUrlProcessed_us url w)"
    by (auto simp add: checkIfUrlProcessed_us_def split: prod.splits)
next
  assume "snd (fst (select_section (extractActIdentifierFromUrl url) w)) \<noteq> None"
  then show "\<not> fst (checkSectionExistsByUrl url w)"
    by (auto simp add: checkSectionExistsByUrl_def checkSectionExistsByUrl_try_def Let_def
        split: prod.splits option.splits outcome.splits if_splits)
next
  show "\<not> fst (checkIfUrlProcessed_sg url w)"
    by (simp add: checkIfUrlProcessed_sg_def)
qed

text \<open>
  A witness for C7: the store is down when the first query arrives; both queries come back
  with the error and both checks answer \<open>False\<close>.
\<close>

theorem lookup_error_is_not_processed_witness:
  "snd (fst (select_processed ''https://caselaw.findlaw.com/court/a.html''
        (fresh [] [Some outage]))) \<noteq> None
   \<and> \<not> fst (checkIfUrlProcessed_us ''https://caselaw.findlaw.com/court/a.html''
           (fresh [] [Some outage]))
   \<and> snd (fst (select_section (extractActIdentifierFromUrl ''https://codes.findlaw.com/al/s-1/'')
        (fresh [] [Some outage]))) \<noteq> None
   \<and> \<not> fst (checkSectionExistsByUrl ''https://codes.findlaw.com/al/s-1/''
           (fresh [] [Some outage]))"
proof -
  have a: "snd (fst (select_processed ''https://caselaw.findlaw.com/court/a.html''
        (fresh [] [Some outage]))) \<noteq> None"
    by (simp add: select_processed_def store_call_def emit_def fresh_def)
  have b: "snd (fst (select_section
        (extractActIdentifierFromUrl ''https://codes.findlaw.com/al/s-1/'')
        (fresh [] [Some outage]))) \<noteq> None"
    by (simp add: select_section_def store_call_def emit_def fresh_def)
  from a b
    lookup_error_is_not_processed [of "''https://caselaw.findlaw.com/court/a.html''"
      "fresh [] [Some outage]"]
    lookup_error_is_not_processed [of "''https://codes.findlaw.com/al/s-1/''"
      "fresh [] [Some outage]"]
  show ?thesis by blast
qed

section \<open>What fetching and storing add to the trace\<close>

lemma works_refl: "works w w"
  by (simp add: works_def)

lemma works_trans: "works w w1 \<Longrightarrow> works w1 w2 \<Longrightarrow> works w w2"
  by (auto simp add: works_def)

lemma works_emit: "page_work e \<Longrightarrow> works w (emit e w)"
  by (simp add: works_def emit_def)

lemma works_fetch: "page_work (Fetch req) \<Longrightarrow> works w (snd (fetch req w))"
  by (auto simp add: fetch_def works_def emit_def split: list.splits)

lemma works_sleep: "works w (sleep n w)"
  by (simp add: sleep_def works_emit page_work_def)

lemma works_fetchWithRetry_from:
  "page_work (Fetch url) \<Longrightarrow> works w (snd (fetchWithRetry_from i url retries delayMs w))"
proof (induction i url retries delayMs w rule: fetchWithRetry_from.induct)
  case (1 i url retries delayMs w)
  show ?case
  proof (cases "i < retries")
    case False
    then show ?thesis by (subst fetchWithRetry_from.simps) (simp add: works_refl)
  next
    case True
    obtain x w1 where f: "fetch url w = (x, w1)" by (cases "fetch url w")
    with works_fetch [OF "1.prems", of w] have w1: "works w w1" by simp
    show ?thesis
    proof (cases x)
      case (NetworkError m)
      with True f w1 show ?thesis by (subst fetchWithRetry_from.simps) simp
    next
      case (Got response)
      show ?thesis
      proof (cases "ok response")
        case ok: True
        with True f w1 Got show ?thesis by (subst fetchWithRetry_from.simps) simp
      next
        case refused: False
        let ?w2 = "if i < retries - 1 then sleep delayMs w1 else w1"
        have "works w1 ?w2" by (simp add: works_sleep works_refl)
        with w1 have "works w ?w2" by (rule works_trans)
        moreover have "works ?w2 (snd (fetchWithRetry_from (i + 1) url retries delayMs ?w2))"
          using "1.IH" [OF True f [symmetric] Got refused "1.prems"] .
        ultimately have "works w (snd (fetchWithRetry_from (i + 1) url retries delayMs ?w2))"
          by (rule works_trans)
        with True f Got refused show ?thesis by (subst fetchWithRetry_from.simps) simp
      qed
    qed
  qed
qed

lemma works_fetchWithRetry:
  "works w (snd (fetchWithRetry (ScrapeCases url isOld) w))"
  by (simp add: fetchWithRetry_def works_fetchWithRetry_from page_work_def)

lemma works_promise_all:
  assumes "\<And>x w. works w (snd (f x w))"
  shows "works w (snd (promise_all f xs w))"
proof (induction xs arbitrary: w)
  case Nil
  show ?case by (simp add: works_refl)
next
  case (Cons x xs)
  obtain y w1 where f: "f x w = (y, w1)" by (cases "f x w")
  with assms [of w x] have "works w w1" by simp
  from works_trans [OF this Cons.IH [of w1]] f show ?case
    by (auto split: prod.splits)
qed

lemma works_upsert_url: "works w (snd (upsert_url url st cols w))"
  by (auto simp add: upsert_url_def store_call_def emit_def works_def page_work_def
      split: list.splits option.splits)

lemma same_store_fetch: "same_store w (snd (fetch req w))"
  by (auto simp add: same_store_def fetch_def emit_def split: list.splits)

lemma same_store_fetchWithRetry_from:
  "same_store w (snd (fetchWithRetry_from i url retries delayMs w))"
proof (induction i url retries delayMs w rule: fetchWithRetry_from.induct)
  case (1 i url retries delayMs w)
  show ?case
  proof (cases "i < retries")
    case False
    then show ?thesis by (subst fetchWithRetry_from.simps) (simp add: same_store_def)
  next
    case True
    obtain x w1 where f: "fetch url w = (x, w1)" by (cases "fetch url w")
    with same_store_fetch [of w url] have w1: "same_store w w1" by simp
    show ?thesis
    proof (cases x)
      case (NetworkError m)
      with True f w1 show ?thesis by (subst fetchWithRetry_from.simps) simp
    next
      case (Got response)
      show ?thesis
      proof (cases "ok response")
        case ok: True
        with True f w1 Got show ?thesis by (subst fetchWithRetry_from.simps) simp
      next
        case refused: False
        let ?w2 = "if i < retries - 1 then sleep delayMs w1 else w1"
        from w1 have "same_store w ?w2" by (simp add: same_store_def sleep_def emit_def)
        with "1.IH" [OF True f [symmetric] Got refused]
        have "same_store w (snd (fetchWithRetry_from (i + 1) url retries delayMs ?w2))"
          by (simp add: same_store_def)
        with True f Got refused show ?thesis by (subst fetchWithRetry_from.simps) simp
      qed
    qed
  qed
qed

lemma same_store_promise_all:
  assumes "\<And>x w. same_store w (snd (f x w))"
  shows "same_store w (snd (promise_all f xs w))"
proof (induction xs arbitrary: w)
  case Nil
  show ?case by (simp add: same_store_def)
next
  case (Cons x xs)
  obtain y w1 where f: "f x w = (y, w1)" by (cases "f x w")
  with assms [of w x] have "same_store w w1" by simp
  with Cons.IH [of w1] f show ?case
    by (auto simp add: same_store_def split: prod.splits)
qed

section \<open>The Singapore driver: pagination and the second pass\<close>

lemma works_checkIfCitationExists: "works w (snd (checkIfCitationExists c w))"
  by (auto simp add: checkIfCitationExists_def select_citation_def store_call_def emit_def
      works_def page_work_def split: option.splits list.splits prod.splits)

lemma works_insert_caselaw_singapore: "works w (snd (insert_caselaw_singapore cd w))"
  by (auto simp add: insert_caselaw_singapore_def store_call_def emit_def works_def
      page_work_def split: list.splits option.splits)

lemma works_insertCaseLaw_sg_try: "works w (snd (insertCaseLaw_sg_try cd url w))"
proof -
  let ?c = "if truthy (citation cd) then checkIfCitationExists (citation cd) w else (False, w)"
  obtain b w1 where c: "?c = (b, w1)" by (cases ?c)
  have w1: "works w w1"
    using c works_checkIfCitationExists [of w "citation cd"] works_refl [of w]
    by (auto split: if_splits)
  obtain r w2 where i: "insert_caselaw_singapore cd w1 = (r, w2)"
    by (cases "insert_caselaw_singapore cd w1")
  with works_insert_caselaw_singapore [of w1 cd] have "works w1 w2" by simp
  with w1 have w2: "works w w2" by (rule works_trans)
  have w3: "works w (snd (upsert_url url st cols w2))" for st cols
    using w2 works_upsert_url by (rule works_trans)
  from c i w1 w2 w3 show ?thesis
    by (cases r) (auto simp add: insertCaseLaw_sg_try_def split: option.splits prod.splits,
      (metis snd_conv)+)
qed

lemma works_insertCaseLaw_sg: "works w (snd (insertCaseLaw_sg cd url w))"
proof -
  obtain r w1 where t: "insertCaseLaw_sg_try cd url w = (r, w1)"
    by (cases "insertCaseLaw_sg_try cd url w")
  with works_insertCaseLaw_sg_try [of w cd url] have w1: "works w w1" by simp
  show ?thesis
  proof (cases r)
    case (Returned i)
    with t w1 show ?thesis by (simp add: insertCaseLaw_sg_def)
  next
    case (Threw e)
    from works_trans [OF w1 works_upsert_url] t Threw show ?thesis
      by (auto simp add: insertCaseLaw_sg_def split: prod.splits) (metis snd_conv)
  qed
qed

lemma works_storing_sg: "works w (storing_sg results w)"
proof (induction results arbitrary: w)
  case Nil
  show ?case by (simp add: works_refl)
next
  case (Cons result results)
  show ?case
  proof (cases "status (fst result) = Some ''error''")
    case True
    with Cons.IH show ?thesis by simp
  next
    case False
    obtain r w1 where i: "insertCaseLaw_sg (caseData_of (fst result)) (snd result) w = (r, w1)"
      by (cases "insertCaseLaw_sg (caseData_of (fst result)) (snd result) w")
    with works_insertCaseLaw_sg [of w "caseData_of (fst result)" "snd result"]
    have "works w w1" by simp
    from works_trans [OF this Cons.IH [of w1]] False i show ?thesis by simp
  qed
qed

lemma works_scrape_sg: "works w (snd (scrape_sg url w))"
proof -
  obtain r w1 where f: "fetchWithRetry (ScrapeCases url False) w = (r, w1)"
    by (cases "fetchWithRetry (ScrapeCases url False) w")
  with works_fetchWithRetry [of w url False] have w1: "works w w1" by simp
  from works_trans [OF w1 works_fetchWithRetry [of w1 url True]]
  have w2: "works w (snd (fetchWithRetry (ScrapeCases url True) w1))" .
  from f w1 w2 show ?thesis
    by (auto simp add: scrape_sg_def split: prod.splits outcome.splits fetched.splits)
qed

lemma same_store_scrape_sg: "same_store w (snd (scrape_sg url w))"
proof -
  obtain r w1 where f: "fetchWithRetry (ScrapeCases url False) w = (r, w1)"
    by (cases "fetchWithRetry (ScrapeCases url False) w")
  with same_store_fetchWithRetry_from [of w 0 "ScrapeCases url False" 5 2000]
  have w1: "same_store w w1" by (simp add: fetchWithRetry_def)
  with same_store_fetchWithRetry_from [of w1 0 "ScrapeCases url True" 5 2000]
  have w2: "same_store w (snd (fetchWithRetry (ScrapeCases url True) w1))"
    by (simp add: fetchWithRetry_def same_store_def)
  from f w1 w2 show ?thesis
    by (auto simp add: scrape_sg_def split: prod.splits outcome.splits fetched.splits)
qed

lemma checks_sg: "promise_all (checked checkIfUrlProcessed_sg) urls w = (map (\<lambda>u. (u, False)) urls, w)"
  by (induction urls) (simp_all add: checked_def checkIfUrlProcessed_sg_def)

lemma page_work_not_listing: "list_all page_work es \<Longrightarrow> filter is_listing es = []"
  by (induction es) (auto simp add: page_work_def is_listing_def split: event.splits request.splits)

lemma pageLoop_listing:
  "\<exists>es m. trace (snd (pageLoop cfg pageIndex w)) = trace w @ es \<and> m \<le> Suc (maxPages cfg)
     \<and> filter is_listing es = map (\<lambda>k. Fetch (SitemapCases k)) [pageIndex..<m]"
proof (induction cfg pageIndex w rule: pageLoop.induct)
  case (1 cfg pageIndex w)
  let ?goal = "\<lambda>w'. \<exists>es m. trace w' = trace w @ es \<and> m \<le> Suc (maxPages cfg)
     \<and> filter is_listing es = map (\<lambda>k. Fetch (SitemapCases k)) [pageIndex..<m]"
  show ?case
  proof (cases "pageIndex \<le> maxPages cfg")
    case False
    have "?goal w" by (intro exI [of _ "[]"] exI [of _ 0]) simp
    with False show ?thesis by (subst pageLoop.simps) simp
  next
    case True
    obtain x w1 where f: "fetch (SitemapCases pageIndex) w = (x, w1)"
      by (cases "fetch (SitemapCases pageIndex) w")
    then have t1: "trace w1 = trace w @ [Fetch (SitemapCases pageIndex)]"
      by (auto simp add: fetch_def emit_def split: list.splits)
    have stop: "?goal w1"
      using t1 True
      by (intro exI [of _ "[Fetch (SitemapCases pageIndex)]"] exI [of _ "Suc pageIndex"])
         (simp add: is_listing_def)
    show ?thesis
    proof (cases x)
      case (NetworkError m)
      with True f stop show ?thesis by (subst pageLoop.simps) simp
    next
      case (Got casesResponse)
      show ?thesis
      proof (cases "ok casesResponse")
        case False
        with True f Got stop show ?thesis by (subst pageLoop.simps) simp
      next
        case ok: True
        show ?thesis
        proof (cases "json_urls casesResponse")
          case (Threw e)
          with True f Got ok stop show ?thesis by (subst pageLoop.simps) simp
        next
          case (Returned caseUrls)
          show ?thesis
          proof (cases "caseUrls = []")
            case True
            with \<open>pageIndex \<le> maxPages cfg\<close> f Got ok Returned stop show ?thesis
              by (subst pageLoop.simps) simp
          next
            case nonempty: False
            obtain checkedUrls w2 where
              c: "promise_all (checked checkIfUrlProcessed_sg)
                    (slice 0 (maxEntriesPerPage cfg) caseUrls) w1 = (checkedUrls, w2)"
              by (cases "promise_all (checked checkIfUrlProcessed_sg)
                    (slice 0 (maxEntriesPerPage cfg) caseUrls) w1")
            with checks_sg have w2: "w2 = w1" by simp
            obtain results w3 where
              p: "promise_all scrape_sg (urlsToProcess_of checkedUrls) w2 = (results, w3)"
              by (cases "promise_all scrape_sg (urlsToProcess_of checkedUrls) w2")
            let ?w4 = "storing_sg results w3"
            let ?w5 = "if pageIndex < maxPages cfg then sleep (requestInterval cfg) ?w4 else ?w4"
            from works_promise_all [of scrape_sg w2, OF works_scrape_sg] p
            have "works w2 w3" by (metis snd_conv)
            from works_trans [OF this works_storing_sg] have "works w2 ?w4" .
            moreover have "works ?w4 ?w5" by (simp add: works_sleep works_refl)
            ultimately have "works w1 ?w5" unfolding w2 by (rule works_trans)
            then obtain ws where ws: "trace ?w5 = trace w1 @ ws" "list_all page_work ws"
              by (auto simp add: works_def)
            from "1.IH" [OF \<open>pageIndex \<le> maxPages cfg\<close> f [symmetric] Got _ Returned nonempty
                c [symmetric] p [symmetric]] ok
            obtain es m where
              ih: "trace (snd (pageLoop cfg (pageIndex + 1) ?w5)) = trace ?w5 @ es"
                  "m \<le> Suc (maxPages cfg)"
                  "filter is_listing es = map (\<lambda>k. Fetch (SitemapCases k)) [pageIndex + 1..<m]"
              by (auto simp add: Let_def)
            have step: "pageLoop cfg pageIndex w = pageLoop cfg (pageIndex + 1) ?w5"
              using \<open>pageIndex \<le> maxPages cfg\<close> f Got ok Returned nonempty c p
              by (subst pageLoop.simps) (simp add: Let_def)
            have "?goal (snd (pageLoop cfg (pageIndex + 1) ?w5))"
            proof (intro exI conjI)
              show "trace (snd (pageLoop cfg (pageIndex + 1) ?w5)) =
                      trace w @ ([Fetch (SitemapCases pageIndex)] @ ws @ es)"
                using ih(1) ws(1) t1 by simp
              show "max m (Suc pageIndex) \<le> Suc (maxPages cfg)"
                using ih(2) \<open>pageIndex \<le> maxPages cfg\<close> by simp
              show "filter is_listing ([Fetch (SitemapCases pageIndex)] @ ws @ es) =
                      map (\<lambda>k. Fetch (SitemapCases k)) [pageIndex..<max m (Suc pageIndex)]"
                using ih(3) page_work_not_listing [OF ws(2)]
                by (cases "m \<le> Suc pageIndex")
                   (auto simp add: is_listing_def max_def upt_conv_Cons)
            qed
            with step show ?thesis by simp
          qed
        qed
      qed
    qed
  qed
qed

text \<open>
  Claim C9. The Singapore page loop has no patience beyond one page: when the listing
  request for a page index within the limit is answered successfully with an empty array,
  the loop ends there, by its "No cases found" exit, having sent that one request and
  nothing else (no further page index is requested, no table is touched). And once the page
  index is above \<^verbatim>\<open>maxPages\<close> the loop ends without any request. Over a whole run, from
  whatever page index and in whatever world, the listing requests are those of consecutive
  page indices starting with the first, and none is above \<^verbatim>\<open>maxPages\<close>.
\<close>

theorem pageLoop_stops:
  "(pageIndex \<le> maxPages cfg \<and> http w = Got r # rest \<and> ok r \<and> json_urls r = Returned [] \<longrightarrow>
      pageLoop cfg pageIndex w =
        (NoCasesFound, w\<lparr>http := rest, trace := trace w @ [Fetch (SitemapCases pageIndex)]\<rparr>))
   \<and> (maxPages cfg < pageIndex \<longrightarrow> pageLoop cfg pageIndex w = (MaxPages, w))
   \<and> (\<exists>es m. trace (snd (pageLoop cfg pageIndex w)) = trace w @ es \<and> m \<le> Suc (maxPages cfg)
         \<and> filter is_listing es = map (\<lambda>k. Fetch (SitemapCases k)) [pageIndex..<m])"
proof (intro conjI impI)
  assume "pageIndex \<le> maxPages cfg \<and> http w = Got r # rest \<and> ok r \<and> json_urls r = Returned []"
  then show "pageLoop cfg pageIndex w =
      (NoCasesFound, w\<lparr>http := rest, trace := trace w @ [Fetch (SitemapCases pageIndex)]\<rparr>)"
    by (subst pageLoop.simps) (auto simp add: fetch_def emit_def)
next
  assume "maxPages cfg < pageIndex"
  then show "pageLoop cfg pageIndex w = (MaxPages, w)"
    by (subst pageLoop.simps) simp
next
  show "\<exists>es m. trace (snd (pageLoop cfg pageIndex w)) = trace w @ es \<and> m \<le> Suc (maxPages cfg)
         \<and> filter is_listing es = map (\<lambda>k. Fetch (SitemapCases k)) [pageIndex..<m]"
    by (rule pageLoop_listing)
qed

text \<open>
  A witness for C9: the driver as configured, started on a listing whose first page (index
  340) is empty, sends that one request and stops; with \<^verbatim>\<open>maxPages\<close> set to 10 the loop
  at page index 11 stops without asking for the page.
\<close>

theorem pageLoop_stops_witness:
  "scrapeSingaporeCaseLaws CONFIG_sg (fresh [listing []] []) =
     (NoCasesFound, (fresh [] [])\<lparr>trace := [Fetch (SitemapCases 340)]\<rparr>)
   \<and> pageLoop (CONFIG_sg\<lparr>maxPages := 10\<rparr>) 11 (fresh [listing [''/gd/s/2025_SGHC_27'']] []) =
       (MaxPages, fresh [listing [''/gd/s/2025_SGHC_27'']] [])"
  using pageLoop_stops [of 340 CONFIG_sg "fresh [listing []] []" "Response True 200 (Urls [])" "[]"]
    pageLoop_stops [of 11 "CONFIG_sg\<lparr>maxPages := 10\<rparr>" "fresh [listing [''/gd/s/2025_SGHC_27'']] []"]
  by (simp add: scrapeSingaporeCaseLaws_def CONFIG_sg_def fresh_def listing_def json_urls_def)

text \<open>
  Claim C10. When the first \<^verbatim>\<open>fetchWithRetry\<close> of a locator succeeds and the \<^verbatim>\<open>case_text\<close>
  it delivers is missing, empty or blank, the task calls \<^verbatim>\<open>fetchWithRetry\<close> once more, for
  the same locator with \<^verbatim>\<open>isOld=true\<close>, and then stops: the world it leaves is the one
  that second call leaves. When the second call succeeds its data are the result; when it
  comes back with the failure marker or a non-success response, the first data are kept.
\<close>

theorem second_pass:
  assumes "fetchWithRetry (ScrapeCases url False) w = (Returned (Resp r1), w1)"
      and "ok r1" and "json_doc r1 = Returned d1" and "blank (case_text d1)"
  shows "snd (scrape_sg url w) = snd (fetchWithRetry (ScrapeCases url True) w1)
       \<and> (\<forall>r2 d2. fst (fetchWithRetry (ScrapeCases url True) w1) = Returned (Resp r2)
                  \<and> ok r2 \<and> json_doc r2 = Returned d2 \<longrightarrow> fst (scrape_sg url w) = (d2, url))
       \<and> (\<forall>r2. fst (fetchWithRetry (ScrapeCases url True) w1) = Returned r2
                \<and> (case r2 of Resp r \<Rightarrow> \<not> ok r | Failed u st er \<Rightarrow> True) \<longrightarrow>
             fst (scrape_sg url w) = (d1, url))"
  using assms
  by (auto simp add: scrape_sg_def split: prod.splits outcome.splits fetched.splits)

text \<open>
  A witness for C10: the first answer carries a blank \<^verbatim>\<open>case_text\<close>, the second pass
  delivers the judgment, and the task returns the second data after exactly those two
  requests.
\<close>

theorem second_pass_witness:
  "fetchWithRetry (ScrapeCases ''/gd/s/2025_SGHC_27'' False)
     (fresh [found (ruling\<lparr>case_text := Some ''  ''\<rparr>), found ruling] []) =
     (Returned (Resp (Response True 200 (Doc (ruling\<lparr>case_text := Some ''  ''\<rparr>)))),
      (fresh [found ruling] [])\<lparr>trace := [Fetch (ScrapeCases ''/gd/s/2025_SGHC_27'' False)]\<rparr>)
   \<and> blank (case_text (ruling\<lparr>case_text := Some ''  ''\<rparr>))
   \<and> scrape_sg ''/gd/s/2025_SGHC_27''
       (fresh [found (ruling\<lparr>case_text := Some ''  ''\<rparr>), found ruling] []) =
       ((ruling, ''/gd/s/2025_SGHC_27''),
        (fresh [] [])\<lparr>trace := [Fetch (ScrapeCases ''/gd/s/2025_SGHC_27'' False),
                                 Fetch (ScrapeCases ''/gd/s/2025_SGHC_27'' True)]\<rparr>)"
proof -
  let ?u = "''/gd/s/2025_SGHC_27''"
  let ?d1 = "ruling\<lparr>case_text := Some ''  ''\<rparr>"
  let ?r1 = "Response True 200 (Doc ?d1)"
  let ?w = "fresh [found ?d1, found ruling] []"
  let ?w1 = "(fresh [found ruling] [])\<lparr>trace := [Fetch (ScrapeCases ?u False)]\<rparr>"
  have first: "fetchWithRetry (ScrapeCases ?u False) ?w = (Returned (Resp ?r1), ?w1)"
    by (simp add: fetchWithRetry_def fetchWithRetry_from.simps fetch_def emit_def fresh_def
        found_def)
  have second: "fetchWithRetry (ScrapeCases ?u True) ?w1 =
      (Returned (Resp (Response True 200 (Doc ruling))),
       (fresh [] [])\<lparr>trace := [Fetch (ScrapeCases ?u False), Fetch (ScrapeCases ?u True)]\<rparr>)"
    by (simp add: fetchWithRetry_def fetchWithRetry_from.simps fetch_def emit_def fresh_def
        found_def)
  have b: "blank (case_text ?d1)"
    by (simp add: blank_def trim_def whitespace_def)
  have j: "json_doc ?r1 = Returned ?d1" by (simp add: json_doc_def)
  from second_pass [OF first _ j b] second
  have "snd (scrape_sg ?u ?w) =
          (fresh [] [])\<lparr>trace := [Fetch (ScrapeCases ?u False), Fetch (ScrapeCases ?u True)]\<rparr>"
   and "fst (scrape_sg ?u ?w) = (ruling, ?u)"
    by (simp_all add: json_doc_def)
  then have "scrape_sg ?u ?w =
       ((ruling, ?u),
        (fresh [] [])\<lparr>trace := [Fetch (ScrapeCases ?u False), Fetch (ScrapeCases ?u True)]\<rparr>)"
    by (simp add: prod_eq_iff)
  with first b show ?thesis by simp
qed

section \<open>The Ingest Writers\<close>

lemma checkIfCitationExists_tables:
  "caselaw_singapore (snd (checkIfCitationExists c w)) = caselaw_singapore w
   \<and> caselaw_scraping_urls (snd (checkIfCitationExists c w)) = caselaw_scraping_urls w"
  by (auto simp add: checkIfCitationExists_def select_citation_def store_call_def emit_def
      split: option.splits list.splits prod.splits)

lemma lookup_finds:
  assumes "c \<noteq> []" and "answered w"
  shows "fst (checkIfCitationExists (Some c) w) \<longleftrightarrow>
           length (with_citation c (caselaw_singapore w)) = 1"
  using assms
  by (auto simp add: checkIfCitationExists_def select_citation_def store_call_def emit_def
      answered_def maybeSingle_def with_citation_def PGRST116_def
      split: option.splits list.splits prod.splits)

lemma upsert_url_rows:
  "caselaw_singapore (snd (upsert_url url st cols w)) = caselaw_singapore w
   \<and> (store_faults w = [] \<longrightarrow> store_faults (snd (upsert_url url st cols w)) = [])"
  by (auto simp add: upsert_url_def store_call_def emit_def split: list.splits option.splits)

lemma insert_caselaw_singapore_rows:
  "(caselaw_singapore (snd (insert_caselaw_singapore cd w)) = caselaw_singapore w
    \<or> (\<exists>n. caselaw_singapore (snd (insert_caselaw_singapore cd w)) =
          caselaw_singapore w @ [\<lparr>row_id = n, row_data = cd, country = ''Singapore''\<rparr>]))
   \<and> (store_faults w = [] \<longrightarrow> store_faults (snd (insert_caselaw_singapore cd w)) = [])"
  by (auto simp add: insert_caselaw_singapore_def store_call_def emit_def
      split: list.splits option.splits)

lemma checkIfCitationExists_faults:
  "store_faults w = [] \<Longrightarrow> store_faults (snd (checkIfCitationExists c w)) = []"
  by (auto simp add: checkIfCitationExists_def select_citation_def store_call_def emit_def
      split: option.splits prod.splits)

lemma insertCaseLaw_sg_try_rows:
  "(caselaw_singapore (snd (insertCaseLaw_sg_try cd url w)) = caselaw_singapore w
    \<or> (\<exists>n. caselaw_singapore (snd (insertCaseLaw_sg_try cd url w)) =
          caselaw_singapore w @ [\<lparr>row_id = n, row_data = cd, country = ''Singapore''\<rparr>]))
   \<and> (store_faults w = [] \<longrightarrow> store_faults (snd (insertCaseLaw_sg_try cd url w)) = [])"
proof -
  let ?c = "if truthy (citation cd) then checkIfCitationExists (citation cd) w else (False, w)"
  obtain b w1 where c: "?c = (b, w1)" by (cases ?c)
  have r1: "caselaw_singapore w1 = caselaw_singapore w"
    using c checkIfCitationExists_tables [of "citation cd" w] by (auto split: if_splits)
  have f1: "store_faults w = [] \<longrightarrow> store_faults w1 = []"
    using c checkIfCitationExists_faults [of w "citation cd"] by (auto split: if_splits)
  obtain r w2 where i: "insert_caselaw_singapore cd w1 = (r, w2)"
    by (cases "insert_caselaw_singapore cd w1")
  from insert_caselaw_singapore_rows [of cd w1] i r1 f1
  have r2: "caselaw_singapore w2 = caselaw_singapore w
    \<or> (\<exists>n. caselaw_singapore w2 =
          caselaw_singapore w @ [\<lparr>row_id = n, row_data = cd, country = ''Singapore''\<rparr>])"
   and f2: "store_faults w = [] \<longrightarrow> store_faults w2 = []"
    by auto
  have r3: "caselaw_singapore (snd (upsert_url url st cols w2)) = caselaw_singapore w2
            \<and> (store_faults w2 = [] \<longrightarrow> store_faults (snd (upsert_url url st cols w2)) = [])"
    for st cols by (rule upsert_url_rows)
  show ?thesis
  proof (cases b)
    case True
    with c r1 f1 show ?thesis by (simp add: insertCaseLaw_sg_try_def)
  next
    case False
    show ?thesis
    proof (cases "case_text cd")
      case None
      with False c r1 f1 show ?thesis by (simp add: insertCaseLaw_sg_try_def)
    next
      case (Some t)
      show ?thesis
      proof (cases "length (trim t) = 0")
        case True
        with Some False c r1 f1 show ?thesis by (simp add: insertCaseLaw_sg_try_def)
      next
        case nonblank: False
        obtain data err where r: "r = (data, err)" by (cases r)
        show ?thesis
        proof (cases "err = None \<and> data \<noteq> None")
          case False
          with nonblank Some \<open>\<not> b\<close> c i r r2 f2 show ?thesis
            by (auto simp add: insertCaseLaw_sg_try_def split: option.splits)
        next
          case True
          then obtain n where n: "data = Some n" "err = None" by auto
          let ?u = "upsert_url url ''success''
                      (\<lambda>r. r\<lparr>case_id := Some n, processed := True, l_status := ''success'',
                              l_country := Some ''Singapore''\<rparr>) w2"
          have "snd (insertCaseLaw_sg_try cd url w) = snd ?u"
            using nonblank Some \<open>\<not> b\<close> c i r n
            by (simp add: insertCaseLaw_sg_try_def split: option.splits prod.splits)
          with r3 r2 f2 show ?thesis by auto
        qed
      qed
    qed
  qed
qed

lemma insertCaseLaw_sg_rows:
  "(caselaw_singapore (snd (insertCaseLaw_sg cd url w)) = caselaw_singapore w
    \<or> (\<exists>n. caselaw_singapore (snd (insertCaseLaw_sg cd url w)) =
          caselaw_singapore w @ [\<lparr>row_id = n, row_data = cd, country = ''Singapore''\<rparr>]))
   \<and> (store_faults w = [] \<longrightarrow> store_faults (snd (insertCaseLaw_sg cd url w)) = [])"
proof -
  obtain r w1 where t: "insertCaseLaw_sg_try cd url w = (r, w1)"
    by (cases "insertCaseLaw_sg_try cd url w")
  with insertCaseLaw_sg_try_rows [of cd url w]
  have w1: "caselaw_singapore w1 = caselaw_singapore w
    \<or> (\<exists>n. caselaw_singapore w1 =
          caselaw_singapore w @ [\<lparr>row_id = n, row_data = cd, country = ''Singapore''\<rparr>])"
    "store_faults w = [] \<longrightarrow> store_faults w1 = []" by auto
  show ?thesis
  proof (cases r)
    case (Returned v)
    with t w1 show ?thesis by (simp add: insertCaseLaw_sg_def)
  next
    case (Threw e)
    let ?u = "upsert_url url ''error''
                (\<lambda>r. r\<lparr>processed := False, l_status := ''error'',
                        error_message := Some (message e),
                        l_country := Some ''Singapore''\<rparr>) w1"
    have "snd (insertCaseLaw_sg cd url w) = snd ?u"
      using t Threw by (simp add: insertCaseLaw_sg_def split: prod.splits)
    with upsert_url_rows [of url "''error''" _ w1] w1 show ?thesis by auto
  qed
qed

lemma citation_lookup_guards:
  assumes "citation cd = Some c" and "c \<noteq> []" and "answered w"
      and "length (with_citation c (caselaw_singapore w)) \<le> 1"
  shows "length (with_citation c (caselaw_singapore (snd (insertCaseLaw_sg cd url w)))) \<le> 1
       \<and> (length (with_citation c (caselaw_singapore w)) = 1 \<longrightarrow>
            fst (insertCaseLaw_sg cd url w) = Returned None
          \<and> caselaw_singapore (snd (insertCaseLaw_sg cd url w)) = caselaw_singapore w
          \<and> caselaw_scraping_urls (snd (insertCaseLaw_sg cd url w)) = caselaw_scraping_urls w)"
proof -
  obtain b w1 where c: "checkIfCitationExists (Some c) w = (b, w1)"
    by (cases "checkIfCitationExists (Some c) w")
  from checkIfCitationExists_tables [of "Some c" w] c
  have t: "caselaw_singapore w1 = caselaw_singapore w"
          "caselaw_scraping_urls w1 = caselaw_scraping_urls w" by simp_all
  from lookup_finds [OF assms(2,3)] c
  have b: "b \<longleftrightarrow> length (with_citation c (caselaw_singapore w)) = 1" by simp
  show ?thesis
  proof (cases b)
    case True
    with assms c t b show ?thesis
      by (simp add: insertCaseLaw_sg_def insertCaseLaw_sg_try_def truthy_def)
  next
    case False
    with b assms(4) have none: "with_citation c (caselaw_singapore w) = []"
      by (cases "with_citation c (caselaw_singapore w)") auto
    from insertCaseLaw_sg_rows [of cd url w] none False b show ?thesis
      by (auto simp add: with_citation_def)
  qed
qed

lemma insertCaseLaw_sg_unique:
  assumes "store_faults w = []" and "unique_citations (caselaw_singapore w)"
  shows "unique_citations (caselaw_singapore (snd (insertCaseLaw_sg cd url w)))"
  unfolding unique_citations_def
proof (intro allI impI)
  fix c :: string
  assume c: "c \<noteq> []"
  from assms(2) c have le: "length (with_citation c (caselaw_singapore w)) \<le> 1"
    by (simp add: unique_citations_def)
  from assms(1) have a: "answered w" by (simp add: answered_def)
  show "length (with_citation c (caselaw_singapore (snd (insertCaseLaw_sg cd url w)))) \<le> 1"
  proof (cases "citation cd = Some c")
    case True
    from citation_lookup_guards [OF True c a le] show ?thesis by simp
  next
    case False
    with insertCaseLaw_sg_rows [of cd url w] le show ?thesis
      by (auto simp add: with_citation_def)
  qed
qed

lemma storing_sg_unique:
  "store_faults w = [] \<Longrightarrow> unique_citations (caselaw_singapore w) \<Longrightarrow>
   unique_citations (caselaw_singapore (storing_sg results w))
   \<and> store_faults (storing_sg results w) = []"
proof (induction results arbitrary: w)
  case Nil
  then show ?case by simp
next
  case (Cons result results)
  show ?case
  proof (cases "status (fst result) = Some ''error''")
    case True
    with Cons show ?thesis by simp
  next
    case False
    let ?w1 = "snd (insertCaseLaw_sg (caseData_of (fst result)) (snd result) w)"
    from insertCaseLaw_sg_unique [OF Cons.prems]
    have u: "unique_citations (caselaw_singapore ?w1)" .
    from insertCaseLaw_sg_rows [of "caseData_of (fst result)" "snd result" w] Cons.prems(1)
    have f: "store_faults ?w1 = []" by simp
    from Cons.IH [OF f u] False show ?thesis by (auto split: prod.splits)
  qed
qed

lemma pageLoop_unique:
  "store_faults w = [] \<Longrightarrow> unique_citations (caselaw_singapore w) \<Longrightarrow>
   unique_citations (caselaw_singapore (snd (pageLoop cfg pageIndex w)))"
proof (induction cfg pageIndex w rule: pageLoop.induct)
  case (1 cfg pageIndex w)
  show ?case
  proof (cases "pageIndex \<le> maxPages cfg")
    case False
    with "1.prems" show ?thesis by (subst pageLoop.simps) simp
  next
    case True
    obtain x w1 where f: "fetch (SitemapCases pageIndex) w = (x, w1)"
      by (cases "fetch (SitemapCases pageIndex) w")
    with same_store_fetch [of w "SitemapCases pageIndex"] "1.prems"
    have s1: "store_faults w1 = []" "unique_citations (caselaw_singapore w1)"
      by (simp_all add: same_store_def)
    show ?thesis
    proof (cases x)
      case (NetworkError m)
      with True f s1 show ?thesis by (subst pageLoop.simps) simp
    next
      case (Got casesResponse)
      show ?thesis
      proof (cases "ok casesResponse")
        case False
        with True f Got s1 show ?thesis by (subst pageLoop.simps) simp
      next
        case ok: True
        show ?thesis
        proof (cases "json_urls casesResponse")
          case (Threw e)
          with True f Got ok s1 show ?thesis by (subst pageLoop.simps) simp
        next
          case (Returned caseUrls)
          show ?thesis
          proof (cases "caseUrls = []")
            case True
            with \<open>pageIndex \<le> maxPages cfg\<close> f Got ok Returned s1 show ?thesis
              by (subst pageLoop.simps) simp
          next
            case nonempty: False
            obtain checkedUrls w2 where
              c: "promise_all (checked checkIfUrlProcessed_sg)
                    (slice 0 (maxEntriesPerPage cfg) caseUrls) w1 = (checkedUrls, w2)"
              by (cases "promise_all (checked checkIfUrlProcessed_sg)
                    (slice 0 (maxEntriesPerPage cfg) caseUrls) w1")
            with checks_sg have w2: "w2 = w1" by simp
            obtain results w3 where
              p: "promise_all scrape_sg (urlsToProcess_of checkedUrls) w2 = (results, w3)"
              by (cases "promise_all scrape_sg (urlsToProcess_of checkedUrls) w2")
            let ?w4 = "storing_sg results w3"
            let ?w5 = "if pageIndex < maxPages cfg then sleep (requestInterval cfg) ?w4 else ?w4"
            from same_store_promise_all [of scrape_sg w2, OF same_store_scrape_sg] p
            have "same_store w2 w3" by (metis snd_conv)
            with s1 w2 have s3: "store_faults w3 = []" "unique_citations (caselaw_singapore w3)"
              by (simp_all add: same_store_def)
            from storing_sg_unique [OF s3, of results]
            have s5: "store_faults ?w5 = []" "unique_citations (caselaw_singapore ?w5)"
              by (simp_all add: sleep_def emit_def)
            have step: "pageLoop cfg pageIndex w = pageLoop cfg (pageIndex + 1) ?w5"
              using \<open>pageIndex \<le> maxPages cfg\<close> f Got ok Returned nonempty c p
              by (subst pageLoop.simps) (simp add: Let_def)
            from "1.IH" [OF \<open>pageIndex \<le> maxPages cfg\<close> f [symmetric] Got _ Returned nonempty
                c [symmetric] p [symmetric]] ok s5
            have "unique_citations (caselaw_singapore (snd (pageLoop cfg (pageIndex + 1) ?w5)))"
              by (simp add: Let_def)
            with step show ?thesis by simp
          qed
        qed
      qed
    qed
  qed
qed

text \<open>
  Claim C1, as amended. The Singapore writer looks the citation up before it commits. For a
  record whose citation is present and non-empty and whose lookup is answered without
  error: when the table holds exactly one row with that citation the record is skipped,
  \<^verbatim>\<open>insertCaseLaw\<close> returns \<^verbatim>\<open>null\<close> and neither the record table nor the ledger changes; and
  a table that holds at most one row with that citation still holds at most one after
  \<^verbatim>\<open>insertCaseLaw\<close>. Over a whole run of the Singapore page loop in which the store answers
  every call, a record table in which no non-empty citation is carried by two rows is still
  such a table at the end.
\<close>

theorem citation_checked_before_commit:
  "(citation cd = Some c \<and> c \<noteq> [] \<and> answered w
      \<and> length (with_citation c (caselaw_singapore w)) = 1 \<longrightarrow>
        fst (insertCaseLaw_sg cd url w) = Returned None
      \<and> caselaw_singapore (snd (insertCaseLaw_sg cd url w)) = caselaw_singapore w
      \<and> caselaw_scraping_urls (snd (insertCaseLaw_sg cd url w)) = caselaw_scraping_urls w)
   \<and> (citation cd = Some c \<and> c \<noteq> [] \<and> answered w
      \<and> length (with_citation c (caselaw_singapore w)) \<le> 1 \<longrightarrow>
        length (with_citation c (caselaw_singapore (snd (insertCaseLaw_sg cd url w)))) \<le> 1)
   \<and> (store_faults w = [] \<and> unique_citations (caselaw_singapore w) \<longrightarrow>
        unique_citations (caselaw_singapore (snd (pageLoop cfg pageIndex w))))"
proof (intro conjI impI)
  assume a: "citation cd = Some c \<and> c \<noteq> [] \<and> answered w
      \<and> length (with_citation c (caselaw_singapore w)) = 1"
  then have "length (with_citation c (caselaw_singapore w)) \<le> 1" by simp
  with a citation_lookup_guards [of cd c w url]
  show "fst (insertCaseLaw_sg cd url w) = Returned None"
   and "caselaw_singapore (snd (insertCaseLaw_sg cd url w)) = caselaw_singapore w"
   and "caselaw_scraping_urls (snd (insertCaseLaw_sg cd url w)) = caselaw_scraping_urls w"
    by simp_all
next
  assume "citation cd = Some c \<and> c \<noteq> [] \<and> answered w
      \<and> length (with_citation c (caselaw_singapore w)) \<le> 1"
  with citation_lookup_guards [of cd c w url]
  show "length (with_citation c (caselaw_singapore (snd (insertCaseLaw_sg cd url w)))) \<le> 1"
    by simp
next
  assume "store_faults w = [] \<and> unique_citations (caselaw_singapore w)"
  then show "unique_citations (caselaw_singapore (snd (pageLoop cfg pageIndex w)))"
    by (simp add: pageLoop_unique)
qed

text \<open>
  A witness for C1: the judgment is ingested from one locator, which writes row 1; ingested
  again from a second locator, it is skipped and the table still holds row 1 alone. And a
  run over a page that lists the two locators ends with row 1 alone.
\<close>

theorem citation_checked_before_commit_witness:
  "citation (caseData_of ruling) = Some ''[2025] SGHC 27''
   \<and> answered (snd (insertCaseLaw_sg (caseData_of ruling) ''/gd/s/2025_SGHC_27'' (fresh [] [])))
   \<and> length (with_citation ''[2025] SGHC 27''
        (caselaw_singapore
           (snd (insertCaseLaw_sg (caseData_of ruling) ''/gd/s/2025_SGHC_27'' (fresh [] []))))) = 1
   \<and> fst (insertCaseLaw_sg (caseData_of ruling) ''/gd/s/2025_SGHC_27_copy''
           (snd (insertCaseLaw_sg (caseData_of ruling) ''/gd/s/2025_SGHC_27'' (fresh [] []))))
       = Returned None
   \<and> map row_id (caselaw_singapore
        (snd (insertCaseLaw_sg (caseData_of ruling) ''/gd/s/2025_SGHC_27_copy''
           (snd (insertCaseLaw_sg (caseData_of ruling) ''/gd/s/2025_SGHC_27'' (fresh [] [])))))) = [1]
   \<and> unique_citations (caselaw_singapore (fresh
         [listing [''/gd/s/2025_SGHC_27'', ''/gd/s/2025_SGHC_27_copy''], found ruling,
          found ruling, listing []] []))
   \<and> unique_citations (caselaw_singapore (snd (pageLoop CONFIG_sg 340 (fresh
         [listing [''/gd/s/2025_SGHC_27'', ''/gd/s/2025_SGHC_27_copy''], found ruling,
          found ruling, listing []] []))))
   \<and> map row_id (caselaw_singapore (snd (pageLoop CONFIG_sg 340 (fresh
         [listing [''/gd/s/2025_SGHC_27'', ''/gd/s/2025_SGHC_27_copy''], found ruling,
          found ruling, listing []] [])))) = [1]"
proof -
  let ?w1 = "snd (insertCaseLaw_sg (caseData_of ruling) ''/gd/s/2025_SGHC_27'' (fresh [] []))"
  let ?w = "fresh [listing [''/gd/s/2025_SGHC_27'', ''/gd/s/2025_SGHC_27_copy''], found ruling,
          found ruling, listing []] []"
  have w1: "?w1 = (fresh [] [])\<lparr>
      caselaw_singapore := [\<lparr>row_id = 1, row_data = caseData_of ruling, country = ''Singapore''\<rparr>],
      caselaw_scraping_urls := [(''/gd/s/2025_SGHC_27'',
         \<lparr>case_id = Some 1, processed = True, l_status = ''success'', error_message = None,
          l_country = Some ''Singapore''\<rparr>)],
      serial := 2,
      trace := [Select ''caselaw_singapore'' ''[2025] SGHC 27'', Insert ''caselaw_singapore'',
                Upsert ''/gd/s/2025_SGHC_27'' ''success'']\<rparr>"
    by (simp add: run_defs)
  have c: "citation (caseData_of ruling) = Some ''[2025] SGHC 27''"
    by (simp add: caseData_of_def ruling_def)
  have a: "answered ?w1" unfolding w1 by (simp add: answered_def fresh_def)
  have n: "length (with_citation ''[2025] SGHC 27'' (caselaw_singapore ?w1)) = 1"
    unfolding w1 by (simp add: with_citation_def fresh_def caseData_of_def ruling_def)
  have r: "map row_id (caselaw_singapore ?w1) = [1]"
    unfolding w1 by (simp add: fresh_def)
  have f: "store_faults ?w = []" by (simp add: fresh_def)
  have u: "unique_citations (caselaw_singapore ?w)"
    by (simp add: unique_citations_def with_citation_def fresh_def)
  have rows: "map row_id (caselaw_singapore (snd (pageLoop CONFIG_sg 340 ?w))) = [1]"
    by (simp add: run_defs)
  note skip = citation_checked_before_commit [of "caseData_of ruling" "''[2025] SGHC 27''" ?w1
      "''/gd/s/2025_SGHC_27_copy''" CONFIG_sg 340, THEN conjunct1]
  note run = citation_checked_before_commit [of "caseData_of ruling" "''[2025] SGHC 27''" ?w
      "''/gd/s/2025_SGHC_27_copy''" CONFIG_sg 340, THEN conjunct2, THEN conjunct2]
  from skip c a n
  have "fst (insertCaseLaw_sg (caseData_of ruling) ''/gd/s/2025_SGHC_27_copy'' ?w1) = Returned None"
   and "caselaw_singapore (snd (insertCaseLaw_sg (caseData_of ruling) ''/gd/s/2025_SGHC_27_copy'' ?w1))
        = caselaw_singapore ?w1"
    by simp_all
  moreover from run f u
  have "unique_citations (caselaw_singapore (snd (pageLoop CONFIG_sg 340 ?w)))" by blast
  ultimately show ?thesis using c a n r u rows by simp
qed

text \<open>
  Claim C1 as stated fails. In the Singapore driver, two locators deliver the same judgment
  and the store refuses the citation lookup made for the second: the lookup counts as "not
  existing" and a second row with the same citation is written. In the US driver
  \<^verbatim>\<open>insertCaseLaw\<close> makes no lookup at all, and the same two results give two rows.
\<close>

theorem same_citation_written_twice:
  "map (\<lambda>r. (row_id r, citation (row_data r)))
     (caselaw_singapore
       (storing_sg [(ruling, ''/gd/s/2025_SGHC_27''), (ruling, ''/gd/s/2025_SGHC_27_copy'')]
          (fresh [] [None, None, None, Some outage]))) =
     [(1, Some ''[2025] SGHC 27''), (2, Some ''[2025] SGHC 27'')]
   \<and> map (\<lambda>r. (row_id r, citation (row_data r)))
     (caselaw_us (storing_us [(ruling, ''a''), (ruling, ''b'')] (fresh [] []))) =
     [(1, Some ''[2025] SGHC 27''), (2, Some ''[2025] SGHC 27'')]"
  by (simp add: run_defs)

lemma blank_skipped:
  assumes "case_text cd = Some t" and "length (trim t) = 0"
  shows "fst (insertCaseLaw_sg cd url w) = Returned None
       \<and> caselaw_singapore (snd (insertCaseLaw_sg cd url w)) = caselaw_singapore w
       \<and> caselaw_scraping_urls (snd (insertCaseLaw_sg cd url w)) = caselaw_scraping_urls w"
proof -
  obtain b w1 where c: "checkIfCitationExists (citation cd) w = (b, w1)"
    by (cases "checkIfCitationExists (citation cd) w")
  with checkIfCitationExists_tables [of "citation cd" w]
  have "caselaw_singapore w1 = caselaw_singapore w"
       "caselaw_scraping_urls w1 = caselaw_scraping_urls w" by simp_all
  with assms c show ?thesis
    by (simp add: insertCaseLaw_sg_def insertCaseLaw_sg_try_def)
qed

lemma undefined_text_not_written:
  assumes "case_text cd = None"
  shows "caselaw_singapore (snd (insertCaseLaw_sg cd url w)) = caselaw_singapore w"
proof -
  let ?c = "if truthy (citation cd) then checkIfCitationExists (citation cd) w else (False, w)"
  obtain b w1 where c: "?c = (b, w1)" by (cases ?c)
  have r1: "caselaw_singapore w1 = caselaw_singapore w"
    using c checkIfCitationExists_tables [of "citation cd" w] by (auto split: if_splits)
  have "snd (insertCaseLaw_sg_try cd url w) = w1"
    using assms c by (simp add: insertCaseLaw_sg_try_def)
  with r1 upsert_url_rows show ?thesis
    by (auto simp add: insertCaseLaw_sg_def split: prod.splits outcome.splits)
       (metis snd_conv)
qed

lemma insertCaseLaw_sg_adds:
  "\<exists>new. caselaw_singapore (snd (insertCaseLaw_sg cd url w)) = caselaw_singapore w @ new
         \<and> with_text new"
proof (cases "blank (case_text cd)")
  case True
  then have "caselaw_singapore (snd (insertCaseLaw_sg cd url w)) = caselaw_singapore w"
    using blank_skipped [of cd _ url w] undefined_text_not_written [of cd url w]
    by (auto simp add: blank_def trim_def split: option.splits)
  then show ?thesis by (intro exI [of _ "[]"]) (simp add: with_text_def)
next
  case False
  from insertCaseLaw_sg_rows [of cd url w, THEN conjunct1] show ?thesis
  proof
    assume "caselaw_singapore (snd (insertCaseLaw_sg cd url w)) = caselaw_singapore w"
    then show ?thesis by (intro exI [of _ "[]"]) (simp add: with_text_def)
  next
    assume "\<exists>n. caselaw_singapore (snd (insertCaseLaw_sg cd url w)) =
          caselaw_singapore w @ [\<lparr>row_id = n, row_data = cd, country = ''Singapore''\<rparr>]"
    then obtain n where "caselaw_singapore (snd (insertCaseLaw_sg cd url w)) =
          caselaw_singapore w @ [\<lparr>row_id = n, row_data = cd, country = ''Singapore''\<rparr>]" ..
    with False show ?thesis
      by (intro exI [of _ "[\<lparr>row_id = n, row_data = cd, country = ''Singapore''\<rparr>]"])
         (simp add: with_text_def)
  qed
qed

lemma storing_sg_adds:
  "\<exists>new. caselaw_singapore (storing_sg results w) = caselaw_singapore w @ new \<and> with_text new"
proof (induction results arbitrary: w)
  case Nil
  show ?case by (intro exI [of _ "[]"]) (simp add: with_text_def)
next
  case (Cons result results)
  show ?case
  proof (cases "status (fst result) = Some ''error''")
    case True
    with Cons.IH [of w] show ?thesis by simp
  next
    case False
    let ?w1 = "snd (insertCaseLaw_sg (caseData_of (fst result)) (snd result) w)"
    from insertCaseLaw_sg_adds [of "caseData_of (fst result)" "snd result" w]
    obtain new1 where n1: "caselaw_singapore ?w1 = caselaw_singapore w @ new1" "with_text new1"
      by blast
    from Cons.IH [of ?w1] obtain new2 where
      n2: "caselaw_singapore (storing_sg results ?w1) = caselaw_singapore ?w1 @ new2"
          "with_text new2" by blast
    have "storing_sg (result # results) w = storing_sg results ?w1"
      using False by (simp split: prod.splits)
    with n1 n2 show ?thesis
      by (intro exI [of _ "new1 @ new2"]) (simp add: with_text_def)
  qed
qed

lemma pageLoop_adds:
  "\<exists>new. caselaw_singapore (snd (pageLoop cfg pageIndex w)) = caselaw_singapore w @ new
         \<and> with_text new"
proof (induction cfg pageIndex w rule: pageLoop.induct)
  case (1 cfg pageIndex w)
  have none: "caselaw_singapore w' = caselaw_singapore w \<Longrightarrow>
              \<exists>new. caselaw_singapore w' = caselaw_singapore w @ new \<and> with_text new" for w'
    by (intro exI [of _ "[]"]) (simp add: with_text_def)
  show ?case
  proof (cases "pageIndex \<le> maxPages cfg")
    case False
    with none [of w] show ?thesis by (subst pageLoop.simps) simp
  next
    case True
    obtain x w1 where f: "fetch (SitemapCases pageIndex) w = (x, w1)"
      by (cases "fetch (SitemapCases pageIndex) w")
    with same_store_fetch [of w "SitemapCases pageIndex"]
    have s1: "caselaw_singapore w1 = caselaw_singapore w" by (simp add: same_store_def)
    note stop = none [OF s1]
    show ?thesis
    proof (cases x)
      case (NetworkError m)
      with True f stop show ?thesis by (subst pageLoop.simps) simp
    next
      case (Got casesResponse)
      show ?thesis
      proof (cases "ok casesResponse")
        case False
        with True f Got stop show ?thesis by (subst pageLoop.simps) simp
      next
        case ok: True
        show ?thesis
        proof (cases "json_urls casesResponse")
          case (Threw e)
          with True f Got ok stop show ?thesis by (subst pageLoop.simps) simp
        next
          case (Returned caseUrls)
          show ?thesis
          proof (cases "caseUrls = []")
            case True
            with \<open>pageIndex \<le> maxPages cfg\<close> f Got ok Returned stop show ?thesis
              by (subst pageLoop.simps) simp
          next
            case nonempty: False
            obtain checkedUrls w2 where
              c: "promise_all (checked checkIfUrlProcessed_sg)
                    (slice 0 (maxEntriesPerPage cfg) caseUrls) w1 = (checkedUrls, w2)"
              by (cases "promise_all (checked checkIfUrlProcessed_sg)
                    (slice 0 (maxEntriesPerPage cfg) caseUrls) w1")
            with checks_sg have w2: "w2 = w1" by simp
            obtain results w3 where
              p: "promise_all scrape_sg (urlsToProcess_of checkedUrls) w2 = (results, w3)"
              by (cases "promise_all scrape_sg (urlsToProcess_of checkedUrls) w2")
            let ?w4 = "storing_sg results w3"
            let ?w5 = "if pageIndex < maxPages cfg then sleep (requestInterval cfg) ?w4 else ?w4"
            from same_store_promise_all [of scrape_sg w2, OF same_store_scrape_sg] p
            have "same_store w2 w3" by (metis snd_conv)
            with s1 w2 have s3: "caselaw_singapore w3 = caselaw_singapore w"
              by (simp add: same_store_def)
            from storing_sg_adds [of results w3] s3 obtain new1 where
              n1: "caselaw_singapore ?w5 = caselaw_singapore w @ new1" "with_text new1"
              by (auto simp add: sleep_def emit_def)
            have step: "pageLoop cfg pageIndex w = pageLoop cfg (pageIndex + 1) ?w5"
              using \<open>pageIndex \<le> maxPages cfg\<close> f Got ok Returned nonempty c p
              by (subst pageLoop.simps) (simp add: Let_def)
            from "1.IH" [OF \<open>pageIndex \<le> maxPages cfg\<close> f [symmetric] Got _ Returned nonempty
                c [symmetric] p [symmetric]] ok
            obtain new2 where
              n2: "caselaw_singapore (snd (pageLoop cfg (pageIndex + 1) ?w5)) =
                     caselaw_singapore ?w5 @ new2" "with_text new2"
              by (auto simp add: Let_def)
            from n1 n2 step show ?thesis
              by (intro exI [of _ "new1 @ new2"]) (simp add: with_text_def)
          qed
        qed
      qed
    qed
  qed
qed

text \<open>
  Claim C4, as amended. In the Singapore writer a record whose \<^verbatim>\<open>case_text\<close> is a string
  that is empty after trimming is never written: \<^verbatim>\<open>insertCaseLaw\<close> returns \<^verbatim>\<open>null\<close> (neither
  a record id nor a thrown error), and the record table and the ledger stay as they were.
  Over a whole run of the Singapore page loop, whatever the network and the store do, the
  record table only grows, and every row added has a text that is not blank.
\<close>

theorem empty_text_not_written:
  "(case_text cd = Some t \<and> length (trim t) = 0 \<longrightarrow>
      fst (insertCaseLaw_sg cd url w) = Returned None
    \<and> caselaw_singapore (snd (insertCaseLaw_sg cd url w)) = caselaw_singapore w
    \<and> caselaw_scraping_urls (snd (insertCaseLaw_sg cd url w)) = caselaw_scraping_urls w)
   \<and> (\<exists>new. caselaw_singapore (snd (pageLoop cfg pageIndex w)) = caselaw_singapore w @ new
         \<and> with_text new)"
  using blank_skipped [of cd t url w] pageLoop_adds [of cfg pageIndex w] by blast

text \<open>
  A witness for C4: a judgment whose text is two spaces is skipped, and both tables stay
  empty. And a run over a page with two locators, the first delivering two spaces in both
  passes and the second a judgment with its text, ends with one row, which has a text.
\<close>

theorem empty_text_not_written_witness:
  "case_text (caseData_of (ruling\<lparr>case_text := Some ''  ''\<rparr>)) = Some ''  ''
   \<and> length (trim ''  '') = 0
   \<and> fst (insertCaseLaw_sg (caseData_of (ruling\<lparr>case_text := Some ''  ''\<rparr>))
            ''/gd/s/2025_SGHC_27'' (fresh [] [])) = Returned None
   \<and> caselaw_singapore (snd (insertCaseLaw_sg (caseData_of (ruling\<lparr>case_text := Some ''  ''\<rparr>))
            ''/gd/s/2025_SGHC_27'' (fresh [] []))) = []
   \<and> caselaw_scraping_urls
       (snd (insertCaseLaw_sg (caseData_of (ruling\<lparr>case_text := Some ''  ''\<rparr>))
            ''/gd/s/2025_SGHC_27'' (fresh [] []))) = []
   \<and> with_text (caselaw_singapore (snd (pageLoop CONFIG_sg 340
        (fresh [listing [''/gd/s/2025_SGHC_27'', ''/gd/s/2019_SGHC_1''],
                found (ruling\<lparr>case_text := Some ''  ''\<rparr>),
                found (ruling\<lparr>case_text := Some ''  ''\<rparr>), found ruling, listing []] []))))
   \<and> map row_id (caselaw_singapore (snd (pageLoop CONFIG_sg 340
        (fresh [listing [''/gd/s/2025_SGHC_27'', ''/gd/s/2019_SGHC_1''],
                found (ruling\<lparr>case_text := Some ''  ''\<rparr>),
                found (ruling\<lparr>case_text := Some ''  ''\<rparr>), found ruling, listing []] []))))
       = [1]"
proof -
  let ?cd = "caseData_of (ruling\<lparr>case_text := Some ''  ''\<rparr>)"
  let ?w = "fresh [listing [''/gd/s/2025_SGHC_27'', ''/gd/s/2019_SGHC_1''],
                found (ruling\<lparr>case_text := Some ''  ''\<rparr>),
                found (ruling\<lparr>case_text := Some ''  ''\<rparr>), found ruling, listing []] []"
  have a: "case_text ?cd = Some ''  ''"
    by (simp add: caseData_of_def)
  have b: "length (trim ''  '') = 0" by (simp add: trim_def whitespace_def)
  have e: "caselaw_singapore (fresh [] []) = []" "caselaw_scraping_urls (fresh [] []) = []"
          "caselaw_singapore ?w = []"
    by (simp_all add: fresh_def)
  have rows: "map row_id (caselaw_singapore (snd (pageLoop CONFIG_sg 340 ?w))) = [1]"
    by (simp add: run_defs)
  note call = empty_text_not_written [of ?cd "''  ''" "''/gd/s/2025_SGHC_27''" "fresh [] []"
      CONFIG_sg 340, THEN conjunct1]
  note run = empty_text_not_written [of ?cd "''  ''" "''/gd/s/2025_SGHC_27''" ?w
      CONFIG_sg 340, THEN conjunct2]
  from call a b e
  have "fst (insertCaseLaw_sg ?cd ''/gd/s/2025_SGHC_27'' (fresh [] [])) = Returned None"
   and "caselaw_singapore (snd (insertCaseLaw_sg ?cd ''/gd/s/2025_SGHC_27'' (fresh [] []))) = []"
   and "caselaw_scraping_urls (snd (insertCaseLaw_sg ?cd ''/gd/s/2025_SGHC_27'' (fresh [] []))) = []"
    by simp_all
  moreover from run e
  have "with_text (caselaw_singapore (snd (pageLoop CONFIG_sg 340 ?w)))" by auto
  ultimately show ?thesis using a b rows by simp
qed

text \<open>
  Claim C4 as stated fails: the US writer has no such guard. A page with one locator whose
  scrape delivers a \<^verbatim>\<open>case_text\<close> of two spaces ends with that row in \<^verbatim>\<open>caselaw_us\<close>; and
  so does the object \<^verbatim>\<open>{ error: ... }\<close>, which the worker sends with status 200 when its own
  scrape failed and which has no \<^verbatim>\<open>case_text\<close> at all.
\<close>

theorem blank_text_written_us:
  "map_option (\<lambda>w. map (\<lambda>r. case_text (row_data r)) (caselaw_us w))
    (filterLoop CONFIG 0 [''u''] (fresh [found (ruling\<lparr>case_text := Some ''  ''\<rparr>)] [])) =
   Some [Some ''  '']
   \<and> map_option (\<lambda>w. map (\<lambda>r. case_text (row_data r)) (caselaw_us w))
    (filterLoop CONFIG 0 [''u'']
       (fresh [found (no_fields\<lparr>error := Some ''HTTP error 404''\<rparr>)] [])) =
   Some [None]"
  by (simp add: run_defs)

text \<open>
  Claim C6, as amended. Whenever the \<^verbatim>\<open>try\<close> block of a writer (Singapore or US) fails
  with an error \<open>e\<close>, the writer sends one ledger upsert for the URL with status \<^verbatim>\<open>error\<close>
  and then rethrows \<open>e\<close>. If the store accepts the upsert, the ledger row of the URL has
  status \<^verbatim>\<open>error\<close>, \<^verbatim>\<open>processed = false\<close> and the message of \<open>e\<close>. If the store refuses it,
  the ledger stays as it was and the refusal is not reported: the caller gets \<open>e\<close> alone in
  both cases.
\<close>

theorem failure_recorded_then_rethrown:
  "(insertCaseLaw_sg_try cd url w = (Threw e, w1) \<longrightarrow>
      fst (insertCaseLaw_sg cd url w) = Threw e
    \<and> trace (snd (insertCaseLaw_sg cd url w)) = trace w1 @ [Upsert url ''error'']
    \<and> (if answered w1
        then \<exists>row. map_of (caselaw_scraping_urls (snd (insertCaseLaw_sg cd url w))) url = Some row
               \<and> l_status row = ''error'' \<and> \<not> processed row
               \<and> error_message row = Some (message e)
        else caselaw_scraping_urls (snd (insertCaseLaw_sg cd url w)) = caselaw_scraping_urls w1))
   \<and> (insertCaseLaw_us_try cd url w = (Threw e, w1) \<longrightarrow>
      fst (insertCaseLaw_us cd url w) = Threw e
    \<and> trace (snd (insertCaseLaw_us cd url w)) = trace w1 @ [Upsert url ''error'']
    \<and> (if answered w1
        then \<exists>row. map_of (caselaw_scraping_urls (snd (insertCaseLaw_us cd url w))) url = Some row
               \<and> l_status row = ''error'' \<and> \<not> processed row
               \<and> error_message row = Some (message e)
        else caselaw_scraping_urls (snd (insertCaseLaw_us cd url w)) = caselaw_scraping_urls w1))"
  by (auto simp add: insertCaseLaw_sg_def insertCaseLaw_us_def upsert_url_def store_call_def
      emit_def answered_def update_conv' split: list.splits option.splits)

text \<open>
  A witness for C6. In the Singapore writer the citation lookup is answered, the insert is
  refused with "Service Unavailable" and the ledger upsert is accepted: the ledger row
  records the error and its message, and the error is rethrown. In the US writer the insert
  is accepted and the upsert that marks success is refused: the same holds.
\<close>

theorem failure_recorded_then_rethrown_witness:
  "insertCaseLaw_sg_try (caseData_of ruling) ''/gd/s/2025_SGHC_27''
     (fresh [] [None, Some outage]) =
     (Threw outage,
      (fresh [] [])\<lparr>trace := [Select ''caselaw_singapore'' ''[2025] SGHC 27'',
                               Insert ''caselaw_singapore'']\<rparr>)
   \<and> fst (insertCaseLaw_sg (caseData_of ruling) ''/gd/s/2025_SGHC_27''
           (fresh [] [None, Some outage])) = Threw outage
   \<and> trace (snd (insertCaseLaw_sg (caseData_of ruling) ''/gd/s/2025_SGHC_27''
           (fresh [] [None, Some outage]))) =
       [Select ''caselaw_singapore'' ''[2025] SGHC 27'', Insert ''caselaw_singapore'',
        Upsert ''/gd/s/2025_SGHC_27'' ''error'']
   \<and> (\<exists>row. map_of (caselaw_scraping_urls
                 (snd (insertCaseLaw_sg (caseData_of ruling) ''/gd/s/2025_SGHC_27''
                    (fresh [] [None, Some outage])))) ''/gd/s/2025_SGHC_27'' = Some row
          \<and> l_status row = ''error'' \<and> \<not> processed row
          \<and> error_message row = Some ''Service Unavailable'')
   \<and> fst (insertCaseLaw_us_try (caseData_of ruling) ''u'' (fresh [] [None, Some outage]))
       = Threw outage
   \<and> fst (insertCaseLaw_us (caseData_of ruling) ''u'' (fresh [] [None, Some outage]))
       = Threw outage
   \<and> (\<exists>row. map_of (caselaw_scraping_urls
                 (snd (insertCaseLaw_us (caseData_of ruling) ''u''
                    (fresh [] [None, Some outage])))) ''u'' = Some row
          \<and> l_status row = ''error'' \<and> \<not> processed row
          \<and> error_message row = Some ''Service Unavailable'')"
proof -
  let ?w1 = "(fresh [] [])\<lparr>trace := [Select ''caselaw_singapore'' ''[2025] SGHC 27'',
                               Insert ''caselaw_singapore'']\<rparr>"
  have t: "insertCaseLaw_sg_try (caseData_of ruling) ''/gd/s/2025_SGHC_27''
     (fresh [] [None, Some outage]) = (Threw outage, ?w1)"
    by (simp add: run_defs)
  have a: "answered ?w1" by (simp add: answered_def fresh_def)
  from failure_recorded_then_rethrown [of "caseData_of ruling" "''/gd/s/2025_SGHC_27''"
      "fresh [] [None, Some outage]" outage ?w1] a t
  have sg: "fst (insertCaseLaw_sg (caseData_of ruling) ''/gd/s/2025_SGHC_27''
           (fresh [] [None, Some outage])) = Threw outage
   \<and> trace (snd (insertCaseLaw_sg (caseData_of ruling) ''/gd/s/2025_SGHC_27''
           (fresh [] [None, Some outage]))) =
       [Select ''caselaw_singapore'' ''[2025] SGHC 27'', Insert ''caselaw_singapore'',
        Upsert ''/gd/s/2025_SGHC_27'' ''error'']
   \<and> (\<exists>row. map_of (caselaw_scraping_urls
                 (snd (insertCaseLaw_sg (caseData_of ruling) ''/gd/s/2025_SGHC_27''
                    (fresh [] [None, Some outage])))) ''/gd/s/2025_SGHC_27'' = Some row
          \<and> l_status row = ''error'' \<and> \<not> processed row
          \<and> error_message row = Some ''Service Unavailable'')"
    by (simp add: fresh_def outage_def)
  let ?v1 = "(fresh [] [])\<lparr>
      caselaw_us := [\<lparr>row_id = 1, row_data = caseData_of ruling, country = ''US''\<rparr>],
      serial := 2, trace := [Insert ''caselaw_us'', Upsert ''u'' ''success'']\<rparr>"
  have u: "insertCaseLaw_us_try (caseData_of ruling) ''u'' (fresh [] [None, Some outage])
      = (Threw outage, ?v1)"
    by (simp add: run_defs)
  have b: "answered ?v1" by (simp add: answered_def fresh_def)
  from failure_recorded_then_rethrown [of "caseData_of ruling" "''u''"
      "fresh [] [None, Some outage]" outage ?v1] b u
  have us: "fst (insertCaseLaw_us (caseData_of ruling) ''u'' (fresh [] [None, Some outage]))
       = Threw outage
   \<and> (\<exists>row. map_of (caselaw_scraping_urls
                 (snd (insertCaseLaw_us (caseData_of ruling) ''u''
                    (fresh [] [None, Some outage])))) ''u'' = Some row
          \<and> l_status row = ''error'' \<and> \<not> processed row
          \<and> error_message row = Some ''Service Unavailable'')"
    by (simp add: outage_def)
  from t sg u us show ?thesis by simp
qed

text \<open>
  Claim C6 as stated fails: when the ledger upsert is refused too (here with
  "Gateway Timeout"), the caller gets the first error alone, exactly as when the upsert was
  accepted; the second failure is dropped and the ledger has no row.
\<close>

theorem ledger_failure_swallowed:
  "insertCaseLaw_sg (caseData_of ruling) ''/gd/s/2025_SGHC_27''
     (fresh [] [None, Some outage, Some (Exn ''504'' ''Gateway Timeout'')]) =
     (Threw outage,
      (fresh [] [])\<lparr>trace := [Select ''caselaw_singapore'' ''[2025] SGHC 27'',
                               Insert ''caselaw_singapore'',
                               Upsert ''/gd/s/2025_SGHC_27'' ''error'']\<rparr>)
   \<and> fst (insertCaseLaw_sg (caseData_of ruling) ''/gd/s/2025_SGHC_27''
           (fresh [] [None, Some outage])) = Threw outage"
  by (simp add: run_defs)

lemma keyed_update:
  "distinct (map fst al) \<Longrightarrow> length (keyed k (AList.update k v al)) = 1"
  by (induction al) (auto simp add: keyed_def rev_image_eqI filter_empty_conv)

lemma store_faults_shape:
  obtains "store_faults w = []" | f1 where "store_faults w = [f1]"
    | f1 f2 where "store_faults w = [f1, f2]"
    | f1 f2 f3 fs where "store_faults w = f1 # f2 # f3 # fs"
  by (cases "store_faults w" rule: list.exhaust; simp) (metis list.exhaust)

lemma ledger_after_insertCaseLaw_us:
  assumes "distinct (map fst (caselaw_scraping_urls w))"
      and "fault_at 1 w = None \<or> (fault_at 0 w = None \<and> fault_at 2 w = None)"
  shows "length (keyed url (caselaw_scraping_urls (snd (insertCaseLaw_us cd url w)))) = 1
       \<and> (\<exists>row. map_of (caselaw_scraping_urls (snd (insertCaseLaw_us cd url w))) url = Some row
             \<and> l_status row =
                 (case fst (insertCaseLaw_us cd url w) of
                    Returned i \<Rightarrow> ''success'' | Threw e \<Rightarrow> ''error''))"
proof (cases w rule: store_faults_shape)
  case 1
  with assms(1) show ?thesis
    by (simp add: insertCaseLaw_us_def insertCaseLaw_us_try_def insert_caselaw_us_def
        upsert_url_def store_call_def emit_def update_conv' keyed_update)
next
  case (2 f1)
  with assms show ?thesis
    by (cases f1)
       (simp_all add: insertCaseLaw_us_def insertCaseLaw_us_try_def insert_caselaw_us_def
        upsert_url_def store_call_def emit_def update_conv' keyed_update fault_at_def)
next
  case (3 f1 f2)
  with assms show ?thesis
    by (cases f1; cases f2)
       (simp_all add: insertCaseLaw_us_def insertCaseLaw_us_try_def insert_caselaw_us_def
        upsert_url_def store_call_def emit_def update_conv' keyed_update fault_at_def)
next
  case (4 f1 f2 f3 fs)
  with assms show ?thesis
    by (cases f1; cases f2; cases f3)
       (simp_all add: insertCaseLaw_us_def insertCaseLaw_us_try_def insert_caselaw_us_def
        upsert_url_def store_call_def emit_def update_conv' keyed_update fault_at_def)
qed

section \<open>The US driver: filtering and dispatching\<close>

lemma works_scrape_us: "works w (snd (scrape_us url w))"
  using works_fetchWithRetry [of w url False]
  by (auto simp add: scrape_us_def split: prod.splits outcome.splits fetched.splits)

lemma works_insert_caselaw_us: "works w (snd (insert_caselaw_us cd w))"
  by (auto simp add: insert_caselaw_us_def store_call_def emit_def works_def page_work_def
      split: list.splits option.splits)

lemma works_insertCaseLaw_us_try: "works w (snd (insertCaseLaw_us_try cd url w))"
proof -
  obtain r w1 where i: "insert_caselaw_us cd w = (r, w1)" by (cases "insert_caselaw_us cd w")
  with works_insert_caselaw_us [of w cd] have w1: "works w w1" by simp
  show ?thesis
  proof (cases "fst r")
    case None
    with i w1 show ?thesis by (cases r) (simp add: insertCaseLaw_us_try_def)
  next
    case (Some n)
    let ?u = "upsert_url url ''success''
                (\<lambda>r. r\<lparr>case_id := Some n, processed := True, l_status := ''success''\<rparr>) w1"
    from works_trans [OF w1 works_upsert_url] have "works w (snd ?u)" .
    with i Some show ?thesis
      by (auto simp add: insertCaseLaw_us_try_def split: prod.splits option.splits)
  qed
qed

lemma works_insertCaseLaw_us: "works w (snd (insertCaseLaw_us cd url w))"
proof -
  obtain r w1 where t: "insertCaseLaw_us_try cd url w = (r, w1)"
    by (cases "insertCaseLaw_us_try cd url w")
  with works_insertCaseLaw_us_try [of w cd url] have w1: "works w w1" by simp
  show ?thesis
  proof (cases r)
    case (Returned i)
    with t w1 show ?thesis by (simp add: insertCaseLaw_us_def)
  next
    case (Threw e)
    from works_trans [OF w1 works_upsert_url] t Threw show ?thesis
      by (auto simp add: insertCaseLaw_us_def split: prod.splits) (metis snd_conv)
  qed
qed

lemma works_storing_us: "works w (storing_us results w)"
proof (induction results arbitrary: w)
  case Nil
  show ?case by (simp add: works_refl)
next
  case (Cons result results)
  show ?case
  proof (cases "status (fst result) = Some ''error''")
    case True
    with Cons.IH show ?thesis by simp
  next
    case False
    obtain r w1 where i: "insertCaseLaw_us (caseData_of (fst result)) (snd result) w = (r, w1)"
      by (cases "insertCaseLaw_us (caseData_of (fst result)) (snd result) w")
    with works_insertCaseLaw_us [of w "caseData_of (fst result)" "snd result"]
    have "works w w1" by simp
    from works_trans [OF this Cons.IH [of w1]] False i show ?thesis by simp
  qed
qed

lemma cloudFlareLoop_works:
  "cloudFlareLoop cfg j urls w = Some w' \<Longrightarrow> works w w'"
proof (induction cfg j urls w rule: cloudFlareLoop.induct)
  case (1 cfg j urls w)
  show ?case
  proof (cases "j < length urls")
    case False
    with "1.prems" show ?thesis by (subst (asm) cloudFlareLoop.simps) (simp add: works_refl)
  next
    case True
    from "1.prems" True have pos: "cloudFlareBatchSize cfg \<noteq> 0"
      by (subst (asm) cloudFlareLoop.simps) (auto split: if_splits)
    obtain results w1 where
      p: "promise_all scrape_us (slice j (j + cloudFlareBatchSize cfg) urls) w = (results, w1)"
      by (cases "promise_all scrape_us (slice j (j + cloudFlareBatchSize cfg) urls) w")
    let ?w3 = "sleep 500 (storing_us results w1)"
    from works_promise_all [of scrape_us w, OF works_scrape_us] p
    have "works w w1" by (metis snd_conv)
    from works_trans [OF this works_storing_us]
    have "works w (storing_us results w1)" .
    from works_trans [OF this works_sleep] have a: "works w ?w3" .
    from "1.prems" True pos p
    have "cloudFlareLoop cfg (j + cloudFlareBatchSize cfg) urls ?w3 = Some w'"
      by (subst (asm) cloudFlareLoop.simps) simp
    from "1.IH" [OF True pos p [symmetric] this] have "works ?w3 w'" .
    with a show ?thesis by (rule works_trans)
  qed
qed

lemma cloudFlareLoop_returns:
  "0 < cloudFlareBatchSize cfg \<Longrightarrow> \<exists>w'. cloudFlareLoop cfg j urls w = Some w'"
proof (induction cfg j urls w rule: cloudFlareLoop.induct)
  case (1 cfg j urls w)
  show ?case
  proof (cases "j < length urls")
    case False
    then show ?thesis by (subst cloudFlareLoop.simps) simp
  next
    case True
    obtain results w1 where
      p: "promise_all scrape_us (slice j (j + cloudFlareBatchSize cfg) urls) w = (results, w1)"
      by (cases "promise_all scrape_us (slice j (j + cloudFlareBatchSize cfg) urls) w")
    from "1.prems" have pos: "cloudFlareBatchSize cfg \<noteq> 0" by simp
    from "1.IH" [OF True pos p [symmetric] "1.prems"] True pos p show ?thesis
      by (subst cloudFlareLoop.simps) simp
  qed
qed

lemma trace_checkIfUrlProcessed_us:
  "trace (snd (checkIfUrlProcessed_us url w)) = trace w @ [Select ''caselaw_scraping_urls'' url]"
  by (auto simp add: checkIfUrlProcessed_us_def select_processed_def store_call_def emit_def
      split: prod.splits list.splits option.splits)

lemma trace_checks:
  "trace (snd (promise_all (checked checkIfUrlProcessed_us) urls w)) =
     trace w @ map (Select ''caselaw_scraping_urls'') urls"
proof (induction urls arbitrary: w)
  case Nil
  show ?case by simp
next
  case (Cons url urls)
  obtain b w1 where c: "checkIfUrlProcessed_us url w = (b, w1)"
    by (cases "checkIfUrlProcessed_us url w")
  with trace_checkIfUrlProcessed_us [of url w]
  have "trace w1 = trace w @ [Select ''caselaw_scraping_urls'' url]" by simp
  with Cons.IH [of w1] c show ?case
    by (auto simp add: checked_def split: prod.splits)
qed

lemma filterLoop_returns:
  "0 < filterBatchSize cfg \<Longrightarrow> 0 < cloudFlareBatchSize cfg \<Longrightarrow>
   \<exists>w'. filterLoop cfg i pageUrls w = Some w'"
proof (induction cfg i pageUrls w rule: filterLoop.induct)
  case (1 cfg i pageUrls w)
  show ?case
  proof (cases "i < length pageUrls")
    case False
    then show ?thesis by (subst filterLoop.simps) simp
  next
    case True
    obtain checkedUrls w1 where
      p: "promise_all (checked checkIfUrlProcessed_us)
            (slice i (i + filterBatchSize cfg) pageUrls) w = (checkedUrls, w1)"
      by (cases "promise_all (checked checkIfUrlProcessed_us)
            (slice i (i + filterBatchSize cfg) pageUrls) w")
    from cloudFlareLoop_returns [OF "1.prems"(2)] obtain w2 where
      c: "cloudFlareLoop cfg 0 (urlsToProcess_of checkedUrls) w1 = Some w2" by blast
    from "1.prems" have pos: "filterBatchSize cfg \<noteq> 0" by simp
    from "1.IH" [OF True pos p [symmetric] c "1.prems"] True pos p c show ?thesis
      by (subst filterLoop.simps) simp
  qed
qed

section \<open>The US driver: requests and ledger entries of a run\<close>

lemma fetched_urls_append: "fetched_urls (a @ b) = fetched_urls a @ fetched_urls b"
  by (simp add: fetched_urls_def)

lemma fetched_urls_Nil: "fetched_urls [] = []"
  by (simp add: fetched_urls_def)

lemma never_twice_tl: "never_twice fs \<Longrightarrow> never_twice (tl fs)"
  by (induction fs rule: never_twice.induct) auto

lemma never_twice_drop: "never_twice fs \<Longrightarrow> never_twice (drop n fs)"
proof (induction n arbitrary: fs)
  case 0
  then show ?case by simp
next
  case (Suc n)
  from Suc.IH [OF never_twice_tl [OF Suc.prems]] show ?case by (simp add: drop_Suc)
qed

lemma never_twice_fault_at:
  "never_twice (store_faults w) \<Longrightarrow>
   fault_at 1 w = None \<or> (fault_at 0 w = None \<and> fault_at 2 w = None)"
proof (cases w rule: store_faults_shape)
  case 1
  then show ?thesis by (simp add: fault_at_def)
next
  case (2 f1)
  then show ?thesis by (simp add: fault_at_def)
next
  case (3 f1 f2)
  assume "never_twice (store_faults w)"
  with 3 show ?thesis by (cases f1; cases f2) (simp_all add: fault_at_def)
next
  case (4 f1 f2 f3 fs)
  assume "never_twice (store_faults w)"
  with 4 show ?thesis by (cases f1; cases f2; cases f3) (simp_all add: fault_at_def)
qed

lemma asks_trans: "asks w A w1 \<Longrightarrow> asks w1 B w2 \<Longrightarrow> asks w (A \<union> B) w2"
  by (auto simp add: asks_def fetched_urls_append)

lemma asks_refl: "asks w {} w"
  by (simp add: asks_def fetched_urls_Nil)

lemma asks_emit: "asks w (set (first_pass e)) (emit e w)"
  by (simp add: asks_def emit_def fetched_urls_def)

lemma booked_trans:
  assumes a: "booked w rs1 w1" and b: "booked w1 rs2 w2"
  shows "booked w (rs1 @ rs2) w2"
proof -
  from a obtain n1 where a4: "store_faults w1 = drop n1 (store_faults w)"
    by (auto simp add: booked_def)
  from b obtain n2 where b4: "store_faults w2 = drop n2 (store_faults w1)"
    by (auto simp add: booked_def)
  have a2: "keyed u (caselaw_scraping_urls w1) = keyed u (caselaw_scraping_urls w)"
    if "\<forall>r\<in>set rs1. snd r = u \<longrightarrow> status (fst r) = Some ''error''" for u
    using a that by (simp add: booked_def)
  have b2: "keyed u (caselaw_scraping_urls w2) = keyed u (caselaw_scraping_urls w1)"
    if "\<forall>r\<in>set rs2. snd r = u \<longrightarrow> status (fst r) = Some ''error''" for u
    using b that by (simp add: booked_def)
  have a3: "distinct (map fst (caselaw_scraping_urls w1))"
           "recorded u (caselaw_scraping_urls w) \<Longrightarrow> recorded u (caselaw_scraping_urls w1)"
    if "distinct (map fst (caselaw_scraping_urls w))" for u
    using a that by (simp_all add: booked_def)
  have b3: "distinct (map fst (caselaw_scraping_urls w2))"
           "recorded u (caselaw_scraping_urls w1) \<Longrightarrow> recorded u (caselaw_scraping_urls w2)"
    if "distinct (map fst (caselaw_scraping_urls w1))" for u
    using b that by (simp_all add: booked_def)
  have a5: "recorded (snd r) (caselaw_scraping_urls w1)"
    if "sound w" "r \<in> set rs1" "status (fst r) \<noteq> Some ''error''" for r
    using a that by (simp add: booked_def)
  have b5: "recorded (snd r) (caselaw_scraping_urls w2)"
    if "sound w1" "r \<in> set rs2" "status (fst r) \<noteq> Some ''error''" for r
    using b that by (simp add: booked_def)
  have s1: "sound w1" if "sound w"
    using that a3(1) a4 by (simp add: sound_def never_twice_drop)
  have c2: "\<forall>u. (\<forall>r\<in>set (rs1 @ rs2). snd r = u \<longrightarrow> status (fst r) = Some ''error'') \<longrightarrow>
          keyed u (caselaw_scraping_urls w2) = keyed u (caselaw_scraping_urls w)"
    using a2 b2 by simp
  have c3: "distinct (map fst (caselaw_scraping_urls w)) \<longrightarrow>
          distinct (map fst (caselaw_scraping_urls w2))
        \<and> (\<forall>u. recorded u (caselaw_scraping_urls w) \<longrightarrow> recorded u (caselaw_scraping_urls w2))"
    using a3 b3 by blast
  have c4: "\<exists>n. store_faults w2 = drop n (store_faults w)"
    using a4 b4 by (intro exI [of _ "n1 + n2"]) (simp add: add.commute)
  have c5: "sound w \<longrightarrow>
          (\<forall>r\<in>set (rs1 @ rs2). status (fst r) \<noteq> Some ''error'' \<longrightarrow>
             recorded (snd r) (caselaw_scraping_urls w2))"
  proof (intro impI ballI)
    fix r
    assume s: "sound w" and r: "r \<in> set (rs1 @ rs2)" and ne: "status (fst r) \<noteq> Some ''error''"
    from s have d: "distinct (map fst (caselaw_scraping_urls w))" by (simp add: sound_def)
    from r consider "r \<in> set rs1" | "r \<in> set rs2" by auto
    then show "recorded (snd r) (caselaw_scraping_urls w2)"
    proof cases
      case 1
      from a5 [OF s 1 ne] b3(2) [OF a3(1) [OF d]] show ?thesis by simp
    next
      case 2
      from b5 [OF s1 [OF s] 2 ne] show ?thesis .
    qed
  qed
  from c2 c3 c4 c5 show ?thesis unfolding booked_def by blast
qed

lemma booked_quiet:
  assumes "caselaw_scraping_urls w' = caselaw_scraping_urls w"
      and "store_faults w' = drop n (store_faults w)"
  shows "booked w [] w'"
  using assms by (auto simp add: booked_def)

lemma booked_after:
  "booked w rs w1 \<Longrightarrow> caselaw_scraping_urls w2 = caselaw_scraping_urls w1 \<Longrightarrow>
   store_faults w2 = drop n (store_faults w1) \<Longrightarrow> booked w rs w2"
  using booked_trans [of w rs w1 "[]" w2] booked_quiet [of w2 w1 n] by simp

lemma booked_before:
  "caselaw_scraping_urls w1 = caselaw_scraping_urls w \<Longrightarrow>
   store_faults w1 = drop n (store_faults w) \<Longrightarrow> booked w1 rs w2 \<Longrightarrow> booked w rs w2"
  using booked_trans [of w "[]" w1 rs w2] booked_quiet [of w1 w n] by simp

lemma asks_fetch: "asks w (set (first_pass (Fetch req))) (snd (fetch req w))"
  by (auto simp add: fetch_def asks_def emit_def fetched_urls_def split: list.splits)

lemma asks_sleep: "asks w {} (sleep n w)"
  using asks_emit [of w "Sleep n"] by (simp add: sleep_def first_pass_def)

lemma quiet_fetch:
  "caselaw_scraping_urls (snd (fetch req w)) = caselaw_scraping_urls w
   \<and> store_faults (snd (fetch req w)) = store_faults w"
  by (auto simp add: fetch_def emit_def split: list.splits)

lemma quiet_fetchWithRetry_from:
  "caselaw_scraping_urls (snd (fetchWithRetry_from i url retries delayMs w))
     = caselaw_scraping_urls w
   \<and> store_faults (snd (fetchWithRetry_from i url retries delayMs w)) = store_faults w"
proof (induction i url retries delayMs w rule: fetchWithRetry_from.induct)
  case (1 i url retries delayMs w)
  show ?case
  proof (cases "i < retries")
    case False
    then show ?thesis by (subst (1 2) fetchWithRetry_from.simps) simp
  next
    case True
    obtain x w1 where f: "fetch url w = (x, w1)" by (cases "fetch url w")
    with quiet_fetch [of url w]
    have w1: "caselaw_scraping_urls w1 = caselaw_scraping_urls w"
             "store_faults w1 = store_faults w" by simp_all
    show ?thesis
    proof (cases x)
      case (NetworkError m)
      with True f w1 show ?thesis by (subst (1 2) fetchWithRetry_from.simps) simp
    next
      case (Got response)
      show ?thesis
      proof (cases "ok response")
        case ok: True
        with True f w1 Got show ?thesis by (subst (1 2) fetchWithRetry_from.simps) simp
      next
        case refused: False
        let ?w2 = "if i < retries - 1 then sleep delayMs w1 else w1"
        from w1 have "caselaw_scraping_urls ?w2 = caselaw_scraping_urls w"
                     "store_faults ?w2 = store_faults w"
          by (simp_all add: sleep_def emit_def)
        with "1.IH" [OF True f [symmetric] Got refused]
        have "caselaw_scraping_urls (snd (fetchWithRetry_from (i + 1) url retries delayMs ?w2))
                = caselaw_scraping_urls w
              \<and> store_faults (snd (fetchWithRetry_from (i + 1) url retries delayMs ?w2))
                = store_faults w"
          by simp
        with True f Got refused show ?thesis by (subst (1 2) fetchWithRetry_from.simps) simp
      qed
    qed
  qed
qed

lemma asks_fetchWithRetry_from:
  "asks w (if i < retries then {u} else {})
     (snd (fetchWithRetry_from i (ScrapeCases u False) retries delayMs w))"
proof (induction i "ScrapeCases u False" retries delayMs w rule: fetchWithRetry_from.induct)
  case (1 i retries delayMs w)
  let ?url = "ScrapeCases u False"
  show ?case
  proof (cases "i < retries")
    case False
    then show ?thesis by (subst fetchWithRetry_from.simps) (simp add: asks_refl)
  next
    case True
    obtain x w1 where f: "fetch ?url w = (x, w1)" by (cases "fetch ?url w")
    with asks_fetch [of w ?url] have w1: "asks w {u} w1" by (simp add: first_pass_def)
    show ?thesis
    proof (cases x)
      case (NetworkError m)
      with True f w1 show ?thesis by (subst fetchWithRetry_from.simps) simp
    next
      case (Got response)
      show ?thesis
      proof (cases "ok response")
        case ok: True
        with True f w1 Got show ?thesis by (subst fetchWithRetry_from.simps) simp
      next
        case refused: False
        let ?w2 = "if i < retries - 1 then sleep delayMs w1 else w1"
        have "asks w1 {} ?w2" by (simp add: asks_sleep asks_refl)
        from asks_trans [OF w1 this] have a: "asks w {u} ?w2" by simp
        from asks_trans [OF a "1.hyps" [OF True f [symmetric] Got refused]]
        have "asks w {u} (snd (fetchWithRetry_from (i + 1) ?url retries delayMs ?w2))"
          by (simp split: if_splits)
        with True f Got refused show ?thesis by (subst fetchWithRetry_from.simps) simp
      qed
    qed
  qed
qed

lemma scrape_us_summary:
  "asks w {url} (snd (scrape_us url w))
   \<and> snd (fst (scrape_us url w)) = url
   \<and> caselaw_scraping_urls (snd (scrape_us url w)) = caselaw_scraping_urls w
   \<and> store_faults (snd (scrape_us url w)) = store_faults w"
proof -
  let ?f = "fetchWithRetry (ScrapeCases url False) w"
  have a: "asks w {url} (snd ?f)"
    using asks_fetchWithRetry_from [of w 0 5 url 2000] by (simp add: fetchWithRetry_def)
  have q: "caselaw_scraping_urls (snd ?f) = caselaw_scraping_urls w"
          "store_faults (snd ?f) = store_faults w"
    using quiet_fetchWithRetry_from [of 0 "ScrapeCases url False" 5 2000 w]
    by (simp_all add: fetchWithRetry_def)
  have s: "snd (scrape_us url w) = snd ?f"
    by (auto simp add: scrape_us_def split: prod.splits outcome.splits fetched.splits)
  have u: "snd (fst (scrape_us url w)) = url"
    by (auto simp add: scrape_us_def error_result_def
        split: prod.splits outcome.splits fetched.splits)
  from a q s u show ?thesis by simp
qed

lemma scrapes_summary:
  "asks w (set urls) (snd (promise_all scrape_us urls w))
   \<and> map snd (fst (promise_all scrape_us urls w)) = urls
   \<and> caselaw_scraping_urls (snd (promise_all scrape_us urls w)) = caselaw_scraping_urls w
   \<and> store_faults (snd (promise_all scrape_us urls w)) = store_faults w"
proof (induction urls arbitrary: w)
  case Nil
  show ?case by (simp add: asks_refl)
next
  case (Cons url urls)
  obtain y w1 where f: "scrape_us url w = (y, w1)" by (cases "scrape_us url w")
  obtain ys w2 where p: "promise_all scrape_us urls w1 = (ys, w2)"
    by (cases "promise_all scrape_us urls w1")
  from scrape_us_summary [of w url] f
  have a: "asks w {url} w1" "snd y = url" "caselaw_scraping_urls w1 = caselaw_scraping_urls w"
          "store_faults w1 = store_faults w" by simp_all
  from Cons.IH [of w1] p
  have b: "asks w1 (set urls) w2" "map snd ys = urls"
          "caselaw_scraping_urls w2 = caselaw_scraping_urls w1"
          "store_faults w2 = store_faults w1" by simp_all
  from asks_trans [OF a(1) b(1)] have "asks w (set (url # urls)) w2" by simp
  with a b f p show ?case by simp
qed

lemma keyed_update_other: "u \<noteq> k \<Longrightarrow> keyed u (AList.update k v al) = keyed u al"
  by (induction al) (auto simp add: keyed_def)

lemma recorded_update:
  "distinct (map fst al) \<Longrightarrow> l_status v = ''success'' \<or> l_status v = ''error'' \<Longrightarrow>
   recorded k (AList.update k v al)"
  by (simp add: recorded_def keyed_update update_conv')

lemma recorded_update_other:
  "u \<noteq> k \<Longrightarrow> recorded u (AList.update k v al) = recorded u al"
  by (simp add: recorded_def keyed_update_other update_conv')

lemma update_shape:
  "l_status v = ''success'' \<or> l_status v = ''error'' \<Longrightarrow>
   AList.update url v l = l
   \<or> (\<exists>row. (l_status row = ''success'' \<or> l_status row = ''error'')
         \<and> AList.update url v l = AList.update url row l)"
  by blast

lemma insertCaseLaw_us_effect:
  "(caselaw_scraping_urls (snd (insertCaseLaw_us cd url w)) = caselaw_scraping_urls w
    \<or> (\<exists>row. (l_status row = ''success'' \<or> l_status row = ''error'')
          \<and> caselaw_scraping_urls (snd (insertCaseLaw_us cd url w))
              = AList.update url row (caselaw_scraping_urls w)))
   \<and> (store_faults (snd (insertCaseLaw_us cd url w)) = drop 2 (store_faults w)
      \<or> store_faults (snd (insertCaseLaw_us cd url w)) = drop 3 (store_faults w))
   \<and> asks w {} (snd (insertCaseLaw_us cd url w))"
proof (cases w rule: store_faults_shape)
  case 1
  then show ?thesis
    by (simp add: insertCaseLaw_us_def insertCaseLaw_us_try_def insert_caselaw_us_def
        upsert_url_def store_call_def emit_def asks_def fetched_urls_def first_pass_def
        update_shape)
next
  case (2 f1)
  then show ?thesis
    by (cases f1)
       (simp_all add: insertCaseLaw_us_def insertCaseLaw_us_try_def insert_caselaw_us_def
        upsert_url_def store_call_def emit_def asks_def fetched_urls_def first_pass_def
        update_shape)
next
  case (3 f1 f2)
  then show ?thesis
    by (cases f1; cases f2)
       (simp_all add: insertCaseLaw_us_def insertCaseLaw_us_try_def insert_caselaw_us_def
        upsert_url_def store_call_def emit_def asks_def fetched_urls_def first_pass_def
        update_shape)
next
  case (4 f1 f2 f3 fs)
  then show ?thesis
    by (cases f1; cases f2; cases f3)
       (simp_all add: insertCaseLaw_us_def insertCaseLaw_us_try_def insert_caselaw_us_def
        upsert_url_def store_call_def emit_def asks_def fetched_urls_def first_pass_def
        update_shape)
qed

lemma booked_insertCaseLaw_us:
  assumes ne: "status (fst result) \<noteq> Some ''error''"
  shows "booked w [result] (snd (insertCaseLaw_us cd (snd result) w))"
proof -
  let ?url = "snd result"
  let ?w = "snd (insertCaseLaw_us cd ?url w)"
  let ?l = "caselaw_scraping_urls w" and ?l' = "caselaw_scraping_urls ?w"
  from insertCaseLaw_us_effect [of cd ?url w]
  have shape: "?l' = ?l \<or> (\<exists>row. (l_status row = ''success'' \<or> l_status row = ''error'')
          \<and> ?l' = AList.update ?url row ?l)"
    and faults: "\<exists>n. store_faults ?w = drop n (store_faults w)"
    by blast+
  have c2: "\<forall>u. (\<forall>r\<in>set [result]. snd r = u \<longrightarrow> status (fst r) = Some ''error'') \<longrightarrow>
          keyed u ?l' = keyed u ?l"
    using shape ne by (auto simp add: keyed_update_other)
  have c3: "distinct (map fst ?l) \<longrightarrow>
          distinct (map fst ?l') \<and> (\<forall>u. recorded u ?l \<longrightarrow> recorded u ?l')"
  proof (intro impI conjI allI)
    assume d: "distinct (map fst ?l)"
    from shape d show "distinct (map fst ?l')" by (auto simp add: distinct_update)
    fix u
    assume r: "recorded u ?l"
    from shape show "recorded u ?l'"
    proof
      assume "?l' = ?l"
      with r show ?thesis by simp
    next
      assume "\<exists>row. (l_status row = ''success'' \<or> l_status row = ''error'')
          \<and> ?l' = AList.update ?url row ?l"
      then obtain row where row: "l_status row = ''success'' \<or> l_status row = ''error''"
        and l': "?l' = AList.update ?url row ?l" by blast
      show ?thesis
      proof (cases "u = ?url")
        case True
        with recorded_update [OF d row, of ?url] l' show ?thesis by simp
      next
        case False
        with recorded_update_other [of u ?url row ?l] l' r show ?thesis by simp
      qed
    qed
  qed
  have c5: "sound w \<longrightarrow>
          (\<forall>r\<in>set [result]. status (fst r) \<noteq> Some ''error'' \<longrightarrow> recorded (snd r) ?l')"
  proof (intro impI ballI)
    fix r
    assume s: "sound w" and r: "r \<in> set [result]"
    from s have d: "distinct (map fst ?l)" and n: "never_twice (store_faults w)"
      by (simp_all add: sound_def)
    from ledger_after_insertCaseLaw_us [OF d never_twice_fault_at [OF n], of ?url cd]
    have "recorded ?url ?l'"
      by (auto simp add: recorded_def split: outcome.splits)
    with r show "recorded (snd r) ?l'" by simp
  qed
  from c2 c3 faults c5 show ?thesis unfolding booked_def by blast
qed

lemma booked_storing_us: "booked w results (storing_us results w)"
proof (induction results arbitrary: w)
  case Nil
  from booked_quiet [of w w 0] show ?case by simp
next
  case (Cons result results)
  show ?case
  proof (cases "status (fst result) = Some ''error''")
    case True
    have "booked w [result] w" using True by (auto simp add: booked_def intro: exI [of _ 0])
    from booked_trans [OF this Cons.IH [of w]] True show ?thesis by simp
  next
    case False
    obtain r w1 where i: "insertCaseLaw_us (caseData_of (fst result)) (snd result) w = (r, w1)"
      by (cases "insertCaseLaw_us (caseData_of (fst result)) (snd result) w")
    with booked_insertCaseLaw_us [OF False, of w "caseData_of (fst result)"]
    have "booked w [result] w1" by simp
    from booked_trans [OF this Cons.IH [of w1]] False i show ?thesis by simp
  qed
qed

lemma asks_storing_us: "asks w {} (storing_us results w)"
proof (induction results arbitrary: w)
  case Nil
  show ?case by (simp add: asks_refl)
next
  case (Cons result results)
  show ?case
  proof (cases "status (fst result) = Some ''error''")
    case True
    with Cons.IH show ?thesis by simp
  next
    case False
    obtain r w1 where i: "insertCaseLaw_us (caseData_of (fst result)) (snd result) w = (r, w1)"
      by (cases "insertCaseLaw_us (caseData_of (fst result)) (snd result) w")
    with insertCaseLaw_us_effect [of "caseData_of (fst result)" "snd result" w]
    have "asks w {} w1" by simp
    from asks_trans [OF this Cons.IH [of w1]] False i show ?thesis by simp
  qed
qed

lemma tracks_trans: "tracks w rs1 w1 \<Longrightarrow> tracks w1 rs2 w2 \<Longrightarrow> tracks w (rs1 @ rs2) w2"
  using asks_trans [of w "snd ` set rs1" w1 "snd ` set rs2" w2] booked_trans [of w rs1 w1 rs2 w2]
  by (simp add: tracks_def image_Un)

lemma tracks_quiet:
  assumes "asks w {} w'" and "caselaw_scraping_urls w' = caselaw_scraping_urls w"
      and "store_faults w' = drop n (store_faults w)"
  shows "tracks w [] w'"
  using assms booked_quiet [of w' w n] by (simp add: tracks_def)

lemma tracks_refl: "tracks w [] w"
  using tracks_quiet [of w w 0] by (simp add: asks_refl)

lemma tracks_sleep: "tracks w [] (sleep n w)"
  using tracks_quiet [of w "sleep n w" 0] asks_sleep [of w n] by (simp add: sleep_def emit_def)

lemma tracks_fetch: "first_pass (Fetch req) = [] \<Longrightarrow> tracks w [] (snd (fetch req w))"
  using tracks_quiet [of w "snd (fetch req w)" 0] asks_fetch [of w req] quiet_fetch [of req w]
  by simp

lemma tracks_round:
  assumes p: "promise_all scrape_us urls w = (results, w1)"
  shows "tracks w results (sleep 500 (storing_us results w1)) \<and> map snd results = urls"
proof -
  let ?w2 = "storing_us results w1"
  from scrapes_summary [of w urls] p
  have a: "asks w (set urls) w1" "map snd results = urls"
          "caselaw_scraping_urls w1 = caselaw_scraping_urls w"
          "store_faults w1 = drop 0 (store_faults w)" by simp_all
  from a(2) have s: "snd ` set results = set urls" by (metis set_map)
  from asks_trans [OF a(1) asks_storing_us [of w1 results]]
  have "asks w (set urls) ?w2" by simp
  from asks_trans [OF this asks_sleep [of ?w2 500]] s
  have 1: "asks w (snd ` set results) (sleep 500 ?w2)" by simp
  from booked_before [OF a(3,4) booked_storing_us [of w1 results]]
  have "booked w results ?w2" .
  from booked_after [OF this, of "sleep 500 ?w2" 0]
  have 2: "booked w results (sleep 500 ?w2)" by (simp add: sleep_def emit_def)
  from 1 2 a(2) show ?thesis by (simp add: tracks_def)
qed

lemma slice_then_rest: "slice j (j + n) xs @ drop (j + n) xs = drop j xs"
proof -
  have "take n (drop j xs) @ drop n (drop j xs) = drop j xs" by (rule append_take_drop_id)
  then show ?thesis by (simp add: slice_def add.commute)
qed

lemma cloudFlareLoop_tracks:
  "cloudFlareLoop cfg j urls w = Some w' \<Longrightarrow>
   tracks w (cloudFlareResults cfg j urls w) w'
   \<and> map snd (cloudFlareResults cfg j urls w) = drop j urls"
proof (induction cfg j urls w rule: cloudFlareLoop.induct)
  case (1 cfg j urls w)
  show ?case
  proof (cases "j < length urls")
    case False
    with "1.prems" have "w' = w" by (subst (asm) cloudFlareLoop.simps) simp
    with False show ?thesis by (subst (1 2) cloudFlareResults.simps) (simp add: tracks_refl)
  next
    case True
    from "1.prems" True have pos: "cloudFlareBatchSize cfg \<noteq> 0"
      by (subst (asm) cloudFlareLoop.simps) (auto split: if_splits)
    obtain results w1 where
      p: "promise_all scrape_us (slice j (j + cloudFlareBatchSize cfg) urls) w = (results, w1)"
      by (cases "promise_all scrape_us (slice j (j + cloudFlareBatchSize cfg) urls) w")
    let ?w3 = "sleep 500 (storing_us results w1)"
    let ?rest = "cloudFlareResults cfg (j + cloudFlareBatchSize cfg) urls ?w3"
    from tracks_round [OF p]
    have a: "tracks w results ?w3"
      and m: "map snd results = slice j (j + cloudFlareBatchSize cfg) urls" by simp_all
    from "1.prems" True pos p
    have "cloudFlareLoop cfg (j + cloudFlareBatchSize cfg) urls ?w3 = Some w'"
      by (subst (asm) cloudFlareLoop.simps) simp
    from "1.IH" [OF True pos p [symmetric] this]
    have b: "tracks ?w3 ?rest w'"
      and n: "map snd ?rest = drop (j + cloudFlareBatchSize cfg) urls" by simp_all
    have r: "cloudFlareResults cfg j urls w = results @ ?rest"
      using True pos p by (subst cloudFlareResults.simps) simp
    from tracks_trans [OF a b] m n r slice_then_rest [of j "cloudFlareBatchSize cfg" urls]
    show ?thesis by simp
  qed
qed

lemma no_key_no_rows:
  "u \<notin> fst ` set rows \<Longrightarrow> filter (\<lambda>(k, r). k = u \<and> P r) rows = []"
  by (induction rows) auto

lemma processed_rows:
  "distinct (map fst rows) \<Longrightarrow>
   map snd (filter (\<lambda>(k, r). k = u \<and> processed r) rows) =
     (case map_of rows u of None \<Rightarrow> [] | Some r \<Rightarrow> if processed r then [r] else [])"
proof (induction rows)
  case Nil
  show ?case by simp
next
  case (Cons x rows)
  obtain k r where x: "x = (k, r)" by (cases x)
  show ?case
  proof (cases "k = u")
    case True
    with Cons.prems x have "u \<notin> fst ` set rows" by auto
    from no_key_no_rows [OF this, of processed] True x show ?thesis by simp
  next
    case False
    with Cons x show ?thesis by simp
  qed
qed

lemma checkIfUrlProcessed_us_effect:
  "caselaw_scraping_urls (snd (checkIfUrlProcessed_us url w)) = caselaw_scraping_urls w
   \<and> store_faults (snd (checkIfUrlProcessed_us url w)) = drop 1 (store_faults w)
   \<and> asks w {} (snd (checkIfUrlProcessed_us url w))"
  by (auto simp add: checkIfUrlProcessed_us_def select_processed_def store_call_def emit_def
      asks_def fetched_urls_def first_pass_def drop_Suc split: prod.splits list.splits option.splits)

lemma checkIfUrlProcessed_us_true:
  assumes "fst (checkIfUrlProcessed_us url w)"
  shows "\<exists>row. (url, row) \<in> set (caselaw_scraping_urls w) \<and> processed row"
proof -
  let ?rows = "map snd (filter (\<lambda>(u, r). u = url \<and> processed r) (caselaw_scraping_urls w))"
  from assms obtain r where "?rows = [r]"
    by (auto simp add: checkIfUrlProcessed_us_def select_processed_def store_call_def emit_def
        maybeSingle_def split: prod.splits list.splits option.splits if_splits)
  then have "r \<in> set ?rows" by simp
  then show ?thesis by auto
qed

lemma checkIfUrlProcessed_us_answered:
  assumes "answered w" and "distinct (map fst (caselaw_scraping_urls w))"
  shows "fst (checkIfUrlProcessed_us url w) = marked url (caselaw_scraping_urls w)"
  using assms processed_rows [OF assms(2), of url]
  by (auto simp add: checkIfUrlProcessed_us_def select_processed_def store_call_def emit_def
      maybeSingle_def marked_def answered_def split: prod.splits list.splits option.splits if_splits)

lemma checks_summary:
  "caselaw_scraping_urls (snd (promise_all (checked checkIfUrlProcessed_us) urls w))
     = caselaw_scraping_urls w
   \<and> store_faults (snd (promise_all (checked checkIfUrlProcessed_us) urls w))
     = drop (length urls) (store_faults w)
   \<and> asks w {} (snd (promise_all (checked checkIfUrlProcessed_us) urls w))
   \<and> map fst (fst (promise_all (checked checkIfUrlProcessed_us) urls w)) = urls
   \<and> (\<forall>p\<in>set (fst (promise_all (checked checkIfUrlProcessed_us) urls w)). snd p \<longrightarrow>
        (\<exists>row. (fst p, row) \<in> set (caselaw_scraping_urls w) \<and> processed row))"
proof (induction urls arbitrary: w)
  case Nil
  show ?case by (simp add: asks_refl)
next
  case (Cons url urls)
  obtain b w1 where c: "checkIfUrlProcessed_us url w = (b, w1)"
    by (cases "checkIfUrlProcessed_us url w")
  obtain ys w2 where p: "promise_all (checked checkIfUrlProcessed_us) urls w1 = (ys, w2)"
    by (cases "promise_all (checked checkIfUrlProcessed_us) urls w1")
  from checkIfUrlProcessed_us_effect [of url w] c
  have a: "caselaw_scraping_urls w1 = caselaw_scraping_urls w"
          "store_faults w1 = drop 1 (store_faults w)" "asks w {} w1" by simp_all
  from checkIfUrlProcessed_us_true [of url w] c
  have t: "b \<longrightarrow> (\<exists>row. (url, row) \<in> set (caselaw_scraping_urls w) \<and> processed row)" by simp
  from Cons.IH [of w1] p
  have i: "caselaw_scraping_urls w2 = caselaw_scraping_urls w1"
          "store_faults w2 = drop (length urls) (store_faults w1)" "asks w1 {} w2"
          "map fst ys = urls"
          "\<forall>p\<in>set ys. snd p \<longrightarrow>
             (\<exists>row. (fst p, row) \<in> set (caselaw_scraping_urls w1) \<and> processed row)"
    by simp_all
  from asks_trans [OF a(3) i(3)] have "asks w {} w2" by simp
  moreover have r: "promise_all (checked checkIfUrlProcessed_us) (url # urls) w
      = ((url, b) # ys, w2)"
    using c p by (simp add: checked_def)
  ultimately show ?case using a i t by (simp add: add.commute)
qed

lemma checks_answered:
  assumes "set (store_faults w) \<subseteq> {None}" and "distinct (map fst (caselaw_scraping_urls w))"
  shows "fst (promise_all (checked checkIfUrlProcessed_us) urls w)
     = map (\<lambda>u. (u, marked u (caselaw_scraping_urls w))) urls"
  using assms
proof (induction urls arbitrary: w)
  case Nil
  show ?case by simp
next
  case (Cons url urls)
  obtain b w1 where c: "checkIfUrlProcessed_us url w = (b, w1)"
    by (cases "checkIfUrlProcessed_us url w")
  obtain ys w2 where p: "promise_all (checked checkIfUrlProcessed_us) urls w1 = (ys, w2)"
    by (cases "promise_all (checked checkIfUrlProcessed_us) urls w1")
  from checkIfUrlProcessed_us_effect [of url w] c
  have a: "caselaw_scraping_urls w1 = caselaw_scraping_urls w"
          "store_faults w1 = drop 1 (store_faults w)" by simp_all
  from Cons.prems(1) have ans: "answered w"
    by (cases "store_faults w") (auto simp add: answered_def)
  from checkIfUrlProcessed_us_answered [OF ans Cons.prems(2), of url] c
  have b: "b = marked url (caselaw_scraping_urls w)" by simp
  from a(2) Cons.prems(1) have "set (store_faults w1) \<subseteq> {None}"
    using set_drop_subset [of 1 "store_faults w"] by auto
  from Cons.IH [OF this] Cons.prems(2) a(1) p
  have ys: "ys = map (\<lambda>u. (u, marked u (caselaw_scraping_urls w))) urls" by simp
  have "promise_all (checked checkIfUrlProcessed_us) (url # urls) w = ((url, b) # ys, w2)"
    using c p by (simp add: checked_def)
  with b ys show ?case by simp
qed

lemma filterLoop_tracks:
  "filterLoop cfg i pageUrls w = Some w' \<Longrightarrow> tracks w (filterResults cfg i pageUrls w) w'"
proof (induction cfg i pageUrls w rule: filterLoop.induct)
  case (1 cfg i pageUrls w)
  show ?case
  proof (cases "i < length pageUrls")
    case False
    with "1.prems" have "w' = w" by (subst (asm) filterLoop.simps) simp
    with False show ?thesis by (subst filterResults.simps) (simp add: tracks_refl)
  next
    case True
    from "1.prems" True have pos: "filterBatchSize cfg \<noteq> 0"
      by (subst (asm) filterLoop.simps) (auto split: if_splits)
    let ?batch = "slice i (i + filterBatchSize cfg) pageUrls"
    obtain checkedUrls w1 where
      p: "promise_all (checked checkIfUrlProcessed_us) ?batch w = (checkedUrls, w1)"
      by (cases "promise_all (checked checkIfUrlProcessed_us) ?batch w")
    from "1.prems" True pos p obtain w2 where
      c: "cloudFlareLoop cfg 0 (urlsToProcess_of checkedUrls) w1 = Some w2"
      and n: "filterLoop cfg (i + filterBatchSize cfg) pageUrls w2 = Some w'"
      by (subst (asm) filterLoop.simps) (auto split: option.splits)
    from checks_summary [of ?batch w] p
    have "tracks w [] w1" using tracks_quiet [of w w1 "length ?batch"] by simp
    from tracks_trans [OF this cloudFlareLoop_tracks [OF c, THEN conjunct1]]
    have a: "tracks w (cloudFlareResults cfg 0 (urlsToProcess_of checkedUrls) w1) w2" by simp
    from "1.IH" [OF True pos p [symmetric] c n]
    have b: "tracks w2 (filterResults cfg (i + filterBatchSize cfg) pageUrls w2) w'" .
    have r: "filterResults cfg i pageUrls w =
        cloudFlareResults cfg 0 (urlsToProcess_of checkedUrls) w1
        @ filterResults cfg (i + filterBatchSize cfg) pageUrls w2"
      using True pos p c by (subst filterResults.simps) simp
    from tracks_trans [OF a b] r show ?thesis by simp
  qed
qed

lemma siteMapLoop_tracks:
  "siteMapLoop cfg siteMapUrls w = Some (out, w') \<Longrightarrow>
   tracks w (siteMapResults cfg siteMapUrls w) w'"
proof (induction siteMapUrls arbitrary: w)
  case Nil
  then show ?case by (simp add: tracks_refl)
next
  case (Cons siteMapUrl siteMapUrls)
  obtain x w1 where f: "fetch (Pages siteMapUrl) w = (x, w1)"
    by (cases "fetch (Pages siteMapUrl) w")
  with tracks_fetch [of "Pages siteMapUrl" w] have w1: "tracks w [] w1"
    by (simp add: first_pass_def)
  show ?case
  proof (cases x)
    case (NetworkError m)
    with Cons.prems f w1 show ?thesis by simp
  next
    case (Got pageUrlRes)
    show ?thesis
    proof (cases "json_urls pageUrlRes")
      case (Threw e)
      with Cons.prems f w1 Got show ?thesis by simp
    next
      case (Returned pageUrls)
      with Cons.prems f Got obtain w2 where
        l: "filterLoop cfg 0 pageUrls w1 = Some w2"
        and n: "siteMapLoop cfg siteMapUrls (sleep 1000 w2) = Some (out, w')"
        by (auto split: option.splits)
      from tracks_trans [OF w1 filterLoop_tracks [OF l]]
      have "tracks w (filterResults cfg 0 pageUrls w1) w2" by simp
      from tracks_trans [OF this tracks_sleep [of w2 1000]]
      have "tracks w (filterResults cfg 0 pageUrls w1) (sleep 1000 w2)" by simp
      from tracks_trans [OF this Cons.IH [OF n]] f Got Returned l show ?thesis by simp
    qed
  qed
qed

lemma siteMapLoop_returns:
  "0 < filterBatchSize cfg \<Longrightarrow> 0 < cloudFlareBatchSize cfg \<Longrightarrow>
   \<exists>out w'. siteMapLoop cfg siteMapUrls w = Some (out, w')"
proof (induction siteMapUrls arbitrary: w)
  case Nil
  show ?case by simp
next
  case (Cons siteMapUrl siteMapUrls)
  obtain x w1 where f: "fetch (Pages siteMapUrl) w = (x, w1)"
    by (cases "fetch (Pages siteMapUrl) w")
  show ?case
  proof (cases x)
    case (NetworkError m)
    with f show ?thesis by simp
  next
    case (Got pageUrlRes)
    show ?thesis
    proof (cases "json_urls pageUrlRes")
      case (Threw e)
      with f Got show ?thesis by simp
    next
      case (Returned pageUrls)
      from filterLoop_returns [OF Cons.prems] obtain w2 where
        l: "filterLoop cfg 0 pageUrls w1 = Some w2" by blast
      from Cons.IH [OF Cons.prems, of "sleep 1000 w2"] f Got Returned l show ?thesis by simp
    qed
  qed
qed

lemma scrapFindLaws_tracks:
  "scrapFindLaws cfg w = Some (out, w') \<Longrightarrow> tracks w (scrapFindLaws_results cfg w) w'"
proof -
  assume run: "scrapFindLaws cfg w = Some (out, w')"
  obtain x w1 where f: "fetch Sitemaps w = (x, w1)" by (cases "fetch Sitemaps w")
  with tracks_fetch [of Sitemaps w] have w1: "tracks w [] w1" by (simp add: first_pass_def)
  show ?thesis
  proof (cases x)
    case (NetworkError m)
    with run f w1 show ?thesis by (simp add: scrapFindLaws_def scrapFindLaws_results_def)
  next
    case (Got siteMapResponse)
    show ?thesis
    proof (cases "json_iterable siteMapResponse")
      case (Threw e)
      with run f w1 Got show ?thesis by (simp add: scrapFindLaws_def scrapFindLaws_results_def)
    next
      case (Returned siteMapUrls)
      with run f Got have "siteMapLoop cfg siteMapUrls w1 = Some (out, w')"
        by (simp add: scrapFindLaws_def)
      from tracks_trans [OF w1 siteMapLoop_tracks [OF this]] f Got Returned show ?thesis
        by (simp add: scrapFindLaws_results_def)
    qed
  qed
qed

lemma scrapFindLaws_returns:
  "0 < filterBatchSize cfg \<Longrightarrow> 0 < cloudFlareBatchSize cfg \<Longrightarrow>
   \<exists>out w'. scrapFindLaws cfg w = Some (out, w')"
  using siteMapLoop_returns [of cfg]
  by (auto simp add: scrapFindLaws_def split: prod.splits reply.splits outcome.splits)

lemma inserted_trans: "inserted w a w1 \<Longrightarrow> inserted w1 b w2 \<Longrightarrow> inserted w (a + b) w2"
  by (auto simp add: inserted_def inserts_def)

lemma inserted_refl: "inserted w 0 w"
  by (simp add: inserted_def inserts_def)

lemma inserted_fetch: "inserted w 0 (snd (fetch req w))"
  by (auto simp add: fetch_def inserted_def inserts_def emit_def split: list.splits)

lemma inserted_sleep: "inserted w 0 (sleep n w)"
  by (simp add: inserted_def inserts_def sleep_def emit_def)

lemma inserted_fetchWithRetry_from:
  "inserted w 0 (snd (fetchWithRetry_from i url retries delayMs w))"
proof (induction i url retries delayMs w rule: fetchWithRetry_from.induct)
  case (1 i url retries delayMs w)
  show ?case
  proof (cases "i < retries")
    case False
    then show ?thesis by (subst fetchWithRetry_from.simps) (simp add: inserted_refl)
  next
    case True
    obtain x w1 where f: "fetch url w = (x, w1)" by (cases "fetch url w")
    with inserted_fetch [of w url] have w1: "inserted w 0 w1" by simp
    show ?thesis
    proof (cases x)
      case (NetworkError m)
      with True f w1 show ?thesis by (subst fetchWithRetry_from.simps) simp
    next
      case (Got response)
      show ?thesis
      proof (cases "ok response")
        case ok: True
        with True f w1 Got show ?thesis by (subst fetchWithRetry_from.simps) simp
      next
        case refused: False
        let ?w2 = "if i < retries - 1 then sleep delayMs w1 else w1"
        have "inserted w1 0 ?w2" by (simp add: inserted_sleep inserted_refl)
        from inserted_trans [OF w1 this] have a: "inserted w 0 ?w2" by simp
        from inserted_trans [OF a "1.IH" [OF True f [symmetric] Got refused]]
        have "inserted w 0 (snd (fetchWithRetry_from (i + 1) url retries delayMs ?w2))"
          by simp
        with True f Got refused show ?thesis by (subst fetchWithRetry_from.simps) simp
      qed
    qed
  qed
qed

lemma inserted_scrape_us: "inserted w 0 (snd (scrape_us url w))"
proof -
  have "snd (scrape_us url w) = snd (fetchWithRetry (ScrapeCases url False) w)"
    by (auto simp add: scrape_us_def split: prod.splits outcome.splits fetched.splits)
  with inserted_fetchWithRetry_from [of w 0 "ScrapeCases url False" 5 2000] show ?thesis
    by (simp add: fetchWithRetry_def)
qed

lemma inserted_scrapes: "inserted w 0 (snd (promise_all scrape_us urls w))"
proof (induction urls arbitrary: w)
  case Nil
  show ?case by (simp add: inserted_refl)
next
  case (Cons url urls)
  obtain y w1 where f: "scrape_us url w = (y, w1)" by (cases "scrape_us url w")
  obtain ys w2 where p: "promise_all scrape_us urls w1 = (ys, w2)"
    by (cases "promise_all scrape_us urls w1")
  from inserted_scrape_us [of w url] f have a: "inserted w 0 w1" by simp
  from Cons.IH [of w1] p have b: "inserted w1 0 w2" by simp
  from inserted_trans [OF a b] f p show ?case by simp
qed

lemma inserted_insertCaseLaw_us: "inserted w 1 (snd (insertCaseLaw_us cd url w))"
proof (cases w rule: store_faults_shape)
  case 1
  then show ?thesis
    by (simp add: insertCaseLaw_us_def insertCaseLaw_us_try_def insert_caselaw_us_def
        upsert_url_def store_call_def emit_def inserted_def inserts_def)
next
  case (2 f1)
  then show ?thesis
    by (cases f1)
       (simp_all add: insertCaseLaw_us_def insertCaseLaw_us_try_def insert_caselaw_us_def
        upsert_url_def store_call_def emit_def inserted_def inserts_def)
next
  case (3 f1 f2)
  then show ?thesis
    by (cases f1; cases f2)
       (simp_all add: insertCaseLaw_us_def insertCaseLaw_us_try_def insert_caselaw_us_def
        upsert_url_def store_call_def emit_def inserted_def inserts_def)
next
  case (4 f1 f2 f3 fs)
  then show ?thesis
    by (cases f1; cases f2; cases f3)
       (simp_all add: insertCaseLaw_us_def insertCaseLaw_us_try_def insert_caselaw_us_def
        upsert_url_def store_call_def emit_def inserted_def inserts_def)
qed

lemma inserted_storing_us: "inserted w (length (stored results)) (storing_us results w)"
proof (induction results arbitrary: w)
  case Nil
  show ?case by (simp add: inserted_refl stored_def)
next
  case (Cons result results)
  show ?case
  proof (cases "status (fst result) = Some ''error''")
    case True
    with Cons.IH [of w] show ?thesis by (simp add: stored_def)
  next
    case False
    obtain r w1 where i: "insertCaseLaw_us (caseData_of (fst result)) (snd result) w = (r, w1)"
      by (cases "insertCaseLaw_us (caseData_of (fst result)) (snd result) w")
    with inserted_insertCaseLaw_us [of w "caseData_of (fst result)" "snd result"]
    have "inserted w 1 w1" by simp
    from inserted_trans [OF this Cons.IH [of w1]] False i show ?thesis by (simp add: stored_def)
  qed
qed

lemma cloudFlareLoop_inserted:
  "cloudFlareLoop cfg j urls w = Some w' \<Longrightarrow>
   inserted w (length (stored (cloudFlareResults cfg j urls w))) w'"
proof (induction cfg j urls w rule: cloudFlareLoop.induct)
  case (1 cfg j urls w)
  show ?case
  proof (cases "j < length urls")
    case False
    with "1.prems" have "w' = w" by (subst (asm) cloudFlareLoop.simps) simp
    with False show ?thesis
      by (subst cloudFlareResults.simps) (simp add: inserted_refl stored_def)
  next
    case True
    from "1.prems" True have pos: "cloudFlareBatchSize cfg \<noteq> 0"
      by (subst (asm) cloudFlareLoop.simps) (auto split: if_splits)
    obtain results w1 where
      p: "promise_all scrape_us (slice j (j + cloudFlareBatchSize cfg) urls) w = (results, w1)"
      by (cases "promise_all scrape_us (slice j (j + cloudFlareBatchSize cfg) urls) w")
    let ?w3 = "sleep 500 (storing_us results w1)"
    let ?rest = "cloudFlareResults cfg (j + cloudFlareBatchSize cfg) urls ?w3"
    from inserted_scrapes [of w "slice j (j + cloudFlareBatchSize cfg) urls"] p
    have "inserted w 0 w1" by simp
    from inserted_trans [OF this inserted_storing_us [of w1 results]]
    have "inserted w (length (stored results)) (storing_us results w1)" by simp
    from inserted_trans [OF this inserted_sleep [of "storing_us results w1" 500]]
    have a: "inserted w (length (stored results)) ?w3" by simp
    from "1.prems" True pos p
    have "cloudFlareLoop cfg (j + cloudFlareBatchSize cfg) urls ?w3 = Some w'"
      by (subst (asm) cloudFlareLoop.simps) simp
    from "1.IH" [OF True pos p [symmetric] this]
    have b: "inserted ?w3 (length (stored ?rest)) w'" .
    have r: "cloudFlareResults cfg j urls w = results @ ?rest"
      using True pos p by (subst cloudFlareResults.simps) simp
    from inserted_trans [OF a b] r show ?thesis by (simp add: stored_def)
  qed
qed

section \<open>The ledger after a run of the US driver\<close>

text \<open>
  Claim C2, as amended. A run of the US driver with positive batch sizes ends, and the
  locators it requests from the Fetcher are exactly the locators of the scrape results it
  obtains. When the ledger starts with one row per url and the store never refuses two
  calls in a row, then after the run every locator with a scrape result that does not carry
  status \<^verbatim>\<open>error\<close> has exactly one ledger row, with status \<^verbatim>\<open>success\<close> or \<^verbatim>\<open>error\<close>. A
  locator all of whose scrape results carry status \<^verbatim>\<open>error\<close> (its fetch failed) has after
  the run the ledger rows it had before: the run writes no ledger entry for it. For one call
  of \<^verbatim>\<open>insertCaseLaw\<close>: provided the ledger has one row per url and the store accepts the
  last ledger upsert of the call (the second store call, or, when the insert and not the
  upsert after it was accepted, the third), the ledger afterwards holds exactly one row for
  the url, with status \<^verbatim>\<open>success\<close> when \<^verbatim>\<open>insertCaseLaw\<close> returned and \<^verbatim>\<open>error\<close> when it
  threw.
\<close>

theorem ledger_entry_after_run:
  assumes "0 < filterBatchSize cfg" and "0 < cloudFlareBatchSize cfg"
  shows "\<exists>out w' es.
           scrapFindLaws cfg w = Some (out, w')
         \<and> trace w' = trace w @ es
         \<and> set (fetched_urls es) = snd ` set (scrapFindLaws_results cfg w)
         \<and> (distinct (map fst (caselaw_scraping_urls w)) \<and> never_twice (store_faults w) \<longrightarrow>
              (\<forall>r\<in>set (scrapFindLaws_results cfg w). status (fst r) \<noteq> Some ''error'' \<longrightarrow>
                 length (keyed (snd r) (caselaw_scraping_urls w')) = 1
               \<and> (\<exists>row. map_of (caselaw_scraping_urls w') (snd r) = Some row
                     \<and> (l_status row = ''success'' \<or> l_status row = ''error''))))
         \<and> (\<forall>u. (\<forall>r\<in>set (scrapFindLaws_results cfg w).
                    snd r = u \<longrightarrow> status (fst r) = Some ''error'') \<longrightarrow>
                keyed u (caselaw_scraping_urls w') = keyed u (caselaw_scraping_urls w))
         \<and> (distinct (map fst (caselaw_scraping_urls v))
              \<and> (fault_at 1 v = None \<or> (fault_at 0 v = None \<and> fault_at 2 v = None)) \<longrightarrow>
                length (keyed url (caselaw_scraping_urls (snd (insertCaseLaw_us cd url v)))) = 1
              \<and> (\<exists>row. map_of (caselaw_scraping_urls (snd (insertCaseLaw_us cd url v))) url
                           = Some row
                    \<and> l_status row =
                        (case fst (insertCaseLaw_us cd url v) of
                           Returned i \<Rightarrow> ''success'' | Threw e \<Rightarrow> ''error'')))"
proof -
  from scrapFindLaws_returns [OF assms] obtain out w' where
    run: "scrapFindLaws cfg w = Some (out, w')" by blast
  let ?rs = "scrapFindLaws_results cfg w"
  from scrapFindLaws_tracks [OF run]
  have a: "asks w (snd ` set ?rs) w'" and b: "booked w ?rs w'" by (simp_all add: tracks_def)
  from a obtain es where
    es: "trace w' = trace w @ es" "set (fetched_urls es) = snd ` set ?rs"
    by (auto simp add: asks_def)
  from b have rec: "distinct (map fst (caselaw_scraping_urls w)) \<and> never_twice (store_faults w) \<longrightarrow>
              (\<forall>r\<in>set ?rs. status (fst r) \<noteq> Some ''error'' \<longrightarrow>
                 length (keyed (snd r) (caselaw_scraping_urls w')) = 1
               \<and> (\<exists>row. map_of (caselaw_scraping_urls w') (snd r) = Some row
                     \<and> (l_status row = ''success'' \<or> l_status row = ''error'')))"
    unfolding booked_def sound_def recorded_def by blast
  from b have frame: "\<forall>u. (\<forall>r\<in>set ?rs. snd r = u \<longrightarrow> status (fst r) = Some ''error'') \<longrightarrow>
                keyed u (caselaw_scraping_urls w') = keyed u (caselaw_scraping_urls w)"
    unfolding booked_def by blast
  have call: "distinct (map fst (caselaw_scraping_urls v))
              \<and> (fault_at 1 v = None \<or> (fault_at 0 v = None \<and> fault_at 2 v = None)) \<longrightarrow>
                length (keyed url (caselaw_scraping_urls (snd (insertCaseLaw_us cd url v)))) = 1
              \<and> (\<exists>row. map_of (caselaw_scraping_urls (snd (insertCaseLaw_us cd url v))) url
                           = Some row
                    \<and> l_status row =
                        (case fst (insertCaseLaw_us cd url v) of
                           Returned i \<Rightarrow> ''success'' | Threw e \<Rightarrow> ''error''))"
    using ledger_after_insertCaseLaw_us by blast
  from run es rec frame call show ?thesis by blast
qed

text \<open>
  A witness for C2: a page of three locators, filter batches of two, dispatch batches of
  two. The scrapes of \<^verbatim>\<open>a\<close> and \<^verbatim>\<open>b\<close>, in one dispatch batch, succeed; the record of \<^verbatim>\<open>a\<close>
  is written and the store refuses the insert of the record of \<^verbatim>\<open>b\<close>; the five requests
  for \<^verbatim>\<open>c\<close> are refused. After the run \<^verbatim>\<open>a\<close> and \<^verbatim>\<open>b\<close> have one ledger row each, with status
  \<^verbatim>\<open>success\<close> and \<^verbatim>\<open>error\<close>, and \<^verbatim>\<open>c\<close> has none. And one call of \<^verbatim>\<open>insertCaseLaw\<close> with a
  store that refuses the insert: the call throws the TypeError of reading \<^verbatim>\<open>data.id\<close>, and
  the ledger holds one row for the url, with status \<^verbatim>\<open>error\<close>.
\<close>

theorem ledger_entry_after_run_witness:
  "0 < filterBatchSize \<lparr>filterBatchSize = 2, cloudFlareBatchSize = 2\<rparr>
   \<and> 0 < cloudFlareBatchSize \<lparr>filterBatchSize = 2, cloudFlareBatchSize = 2\<rparr>
   \<and> distinct (map fst (caselaw_scraping_urls
        (fresh ([listing [''s''], listing [''a'', ''b'', ''c''], found ruling, found ruling]
                @ map Got [refusal, refusal, refusal, refusal, refusal])
               [None, None, None, None, Some outage])))
   \<and> never_twice (store_faults
        (fresh ([listing [''s''], listing [''a'', ''b'', ''c''], found ruling, found ruling]
                @ map Got [refusal, refusal, refusal, refusal, refusal])
               [None, None, None, None, Some outage]))
   \<and> scrapFindLaws_results \<lparr>filterBatchSize = 2, cloudFlareBatchSize = 2\<rparr>
        (fresh ([listing [''s''], listing [''a'', ''b'', ''c''], found ruling, found ruling]
                @ map Got [refusal, refusal, refusal, refusal, refusal])
               [None, None, None, None, Some outage]) =
       [(ruling, ''a''), (ruling, ''b''), error_result ''c'' ''Failed after multiple retries'']
   \<and> (\<exists>out w'.
         scrapFindLaws \<lparr>filterBatchSize = 2, cloudFlareBatchSize = 2\<rparr>
           (fresh ([listing [''s''], listing [''a'', ''b'', ''c''], found ruling, found ruling]
                @ map Got [refusal, refusal, refusal, refusal, refusal])
               [None, None, None, None, Some outage]) = Some (out, w')
       \<and> set (fetched_urls (trace w')) = {''a'', ''b'', ''c''}
       \<and> length (keyed ''a'' (caselaw_scraping_urls w')) = 1
       \<and> length (keyed ''b'' (caselaw_scraping_urls w')) = 1
       \<and> keyed ''c'' (caselaw_scraping_urls w') = []
       \<and> map (\<lambda>(u, row). (u, l_status row, error_message row)) (caselaw_scraping_urls w') =
           [(''a'', ''success'', None),
            (''b'', ''error'', Some ''Cannot read properties of null (reading 'id')'')])
   \<and> distinct (map fst (caselaw_scraping_urls (fresh [] [Some outage])))
   \<and> fault_at 1 (fresh [] [Some outage]) = None
   \<and> fst (insertCaseLaw_us (caseData_of ruling) ''b'' (fresh [] [Some outage])) = Threw null_id
   \<and> length (keyed ''b'' (caselaw_scraping_urls
         (snd (insertCaseLaw_us (caseData_of ruling) ''b'' (fresh [] [Some outage]))))) = 1
   \<and> (\<exists>row. map_of (caselaw_scraping_urls
                 (snd (insertCaseLaw_us (caseData_of ruling) ''b'' (fresh [] [Some outage]))))
               ''b'' = Some row
            \<and> l_status row = ''error'')"
proof -
  let ?cfg = "\<lparr>filterBatchSize = 2, cloudFlareBatchSize = 2\<rparr>"
  let ?v = "fresh [] [Some outage]"
  let ?i = "insertCaseLaw_us (caseData_of ruling) ''b'' ?v"
  let ?w = "(fresh ([listing [''s''], listing [''a'', ''b'', ''c''], found ruling, found ruling]
                @ map Got [refusal, refusal, refusal, refusal, refusal])
               [None, None, None, None, Some outage])"
  let ?rs = "[(ruling, ''a''), (ruling, ''b''),
              error_result ''c'' ''Failed after multiple retries'']"
  have h: "0 < filterBatchSize ?cfg" "0 < cloudFlareBatchSize ?cfg" by simp_all
  have d: "distinct (map fst (caselaw_scraping_urls ?w))" by (simp add: fresh_def)
  have n: "never_twice (store_faults ?w)" by (simp add: fresh_def)
  have t: "trace ?w = []" and l: "caselaw_scraping_urls ?w = []" by (simp_all add: fresh_def)
  have res: "scrapFindLaws_results ?cfg ?w = ?rs"
    by (simp add: run_defs results_defs)
  have ev: "map_option (\<lambda>(r, w). map (\<lambda>(u, row). (u, l_status row, error_message row))
                    (caselaw_scraping_urls w)) (scrapFindLaws ?cfg ?w) =
      Some [(''a'', ''success'', None),
            (''b'', ''error'', Some ''Cannot read properties of null (reading 'id')'')]"
    by (simp add: run_defs)
  have dv: "distinct (map fst (caselaw_scraping_urls ?v))"
    and fv: "fault_at 1 ?v = None" by (simp_all add: fresh_def fault_at_def)
  have th: "fst ?i = Threw null_id" by (simp add: run_defs)
  from ledger_entry_after_run
         [OF h, where w = ?w and v = ?v and cd = "caseData_of ruling" and url = "''b''"]
  obtain out w' es where
    run: "scrapFindLaws ?cfg ?w = Some (out, w')"
    and es: "trace w' = trace ?w @ es"
            "set (fetched_urls es) = snd ` set (scrapFindLaws_results ?cfg ?w)"
    and rec: "distinct (map fst (caselaw_scraping_urls ?w)) \<and> never_twice (store_faults ?w) \<longrightarrow>
              (\<forall>r\<in>set (scrapFindLaws_results ?cfg ?w). status (fst r) \<noteq> Some ''error'' \<longrightarrow>
                 length (keyed (snd r) (caselaw_scraping_urls w')) = 1
               \<and> (\<exists>row. map_of (caselaw_scraping_urls w') (snd r) = Some row
                     \<and> (l_status row = ''success'' \<or> l_status row = ''error'')))"
    and frame: "\<forall>u. (\<forall>r\<in>set (scrapFindLaws_results ?cfg ?w).
                    snd r = u \<longrightarrow> status (fst r) = Some ''error'') \<longrightarrow>
                keyed u (caselaw_scraping_urls w') = keyed u (caselaw_scraping_urls ?w)"
    and call: "distinct (map fst (caselaw_scraping_urls ?v))
              \<and> (fault_at 1 ?v = None \<or> (fault_at 0 ?v = None \<and> fault_at 2 ?v = None)) \<longrightarrow>
                length (keyed ''b'' (caselaw_scraping_urls (snd ?i))) = 1
              \<and> (\<exists>row. map_of (caselaw_scraping_urls (snd ?i)) ''b'' = Some row
                    \<and> l_status row =
                        (case fst ?i of Returned i \<Rightarrow> ''success'' | Threw e \<Rightarrow> ''error''))"
    by (elim exE conjE) (rule that)
  from call dv fv have "length (keyed ''b'' (caselaw_scraping_urls (snd ?i))) = 1
      \<and> (\<exists>row. map_of (caselaw_scraping_urls (snd ?i)) ''b'' = Some row
            \<and> l_status row =
                (case fst ?i of Returned i \<Rightarrow> ''success'' | Threw e \<Rightarrow> ''error''))"
    by blast
  with th have g6: "length (keyed ''b'' (caselaw_scraping_urls (snd ?i))) = 1"
    and g7: "\<exists>row. map_of (caselaw_scraping_urls (snd ?i)) ''b'' = Some row
               \<and> l_status row = ''error''"
    by simp_all
  from es t res have g1: "set (fetched_urls (trace w')) = {''a'', ''b'', ''c''}"
    by (simp add: error_result_def)
  from rec d n res have r1: "\<forall>r\<in>set ?rs. status (fst r) \<noteq> Some ''error'' \<longrightarrow>
      length (keyed (snd r) (caselaw_scraping_urls w')) = 1"
    by simp
  have s: "status ruling \<noteq> Some ''error''" by (simp add: ruling_def no_fields_def)
  from r1 s have g2: "length (keyed ''a'' (caselaw_scraping_urls w')) = 1"
    and g3: "length (keyed ''b'' (caselaw_scraping_urls w')) = 1" by simp_all
  from frame res have "(\<forall>r\<in>set ?rs. snd r = ''c'' \<longrightarrow> status (fst r) = Some ''error'') \<longrightarrow>
      keyed ''c'' (caselaw_scraping_urls w') = keyed ''c'' (caselaw_scraping_urls ?w)"
    by simp
  with l have g4: "keyed ''c'' (caselaw_scraping_urls w') = []"
    by (simp add: error_result_def keyed_def)
  from ev run have g5: "map (\<lambda>(u, row). (u, l_status row, error_message row))
      (caselaw_scraping_urls w') =
      [(''a'', ''success'', None),
       (''b'', ''error'', Some ''Cannot read properties of null (reading 'id')'')]"
    by simp
  from run g1 g2 g3 g4 g5 have "\<exists>out w'.
         scrapFindLaws ?cfg ?w = Some (out, w')
       \<and> set (fetched_urls (trace w')) = {''a'', ''b'', ''c''}
       \<and> length (keyed ''a'' (caselaw_scraping_urls w')) = 1
       \<and> length (keyed ''b'' (caselaw_scraping_urls w')) = 1
       \<and> keyed ''c'' (caselaw_scraping_urls w') = []
       \<and> map (\<lambda>(u, row). (u, l_status row, error_message row)) (caselaw_scraping_urls w') =
           [(''a'', ''success'', None),
            (''b'', ''error'', Some ''Cannot read properties of null (reading 'id')'')]"
    by (intro exI [of _ out] exI [of _ w'] conjI)
  with h d n res dv fv th g6 g7 show ?thesis by (intro conjI)
qed

text \<open>
  Claim C2 as stated fails: a locator that was dispatched and whose five requests were all
  refused has no ledger row after the run.
\<close>

theorem failed_fetch_leaves_no_ledger_entry:
  "map_option (\<lambda>(r, w). (r, trace w, caselaw_scraping_urls w))
     (scrapFindLaws CONFIG
        (fresh ([listing [''https://caselaw.findlaw.com/sitemap-1.xml''], listing [''u'']]
                @ map Got [refusal, refusal, refusal, refusal, refusal]) [])) =
   Some (Returned (),
     [Fetch Sitemaps, Fetch (Pages ''https://caselaw.findlaw.com/sitemap-1.xml''),
      Select ''caselaw_scraping_urls'' ''u'',
      Fetch (ScrapeCases ''u'' False), Sleep 2000, Fetch (ScrapeCases ''u'' False), Sleep 2000,
      Fetch (ScrapeCases ''u'' False), Sleep 2000, Fetch (ScrapeCases ''u'' False), Sleep 2000,
      Fetch (ScrapeCases ''u'' False), Sleep 500, Sleep 1000],
     [])"
  by (simp add: run_defs)

section \<open>The US driver: filter rounds\<close>

lemma survivors_of_checks:
  assumes "map fst checkedUrls = batch"
      and "\<forall>p\<in>set checkedUrls. snd p \<longrightarrow>
             (\<exists>row. (fst p, row) \<in> set rows \<and> processed row)"
  shows "set (urlsToProcess_of checkedUrls) \<subseteq> set batch"
    and "\<forall>u\<in>set batch. u \<notin> set (urlsToProcess_of checkedUrls) \<longrightarrow>
           (\<exists>row. (u, row) \<in> set rows \<and> processed row)"
proof -
  from assms(1) have b: "set batch = fst ` set checkedUrls" by (metis set_map)
  then show "set (urlsToProcess_of checkedUrls) \<subseteq> set batch"
    by (auto simp add: urlsToProcess_of_def)
  show "\<forall>u\<in>set batch. u \<notin> set (urlsToProcess_of checkedUrls) \<longrightarrow>
           (\<exists>row. (u, row) \<in> set rows \<and> processed row)"
  proof (intro ballI impI)
    fix u
    assume "u \<in> set batch" and n: "u \<notin> set (urlsToProcess_of checkedUrls)"
    with b obtain p where p: "p \<in> set checkedUrls" "fst p = u" by auto
    with n have "snd p" by (auto simp add: urlsToProcess_of_def)
    with assms(2) p show "\<exists>row. (u, row) \<in> set rows \<and> processed row" by auto
  qed
qed

lemma survivors_of_marks:
  "urlsToProcess_of (map (\<lambda>u. (u, marked u rows)) batch) = filter (\<lambda>u. \<not> marked u rows) batch"
  by (induction batch) (simp_all add: urlsToProcess_of_def)

text \<open>
  Claim C8, as amended. In the US driver the dedup filter and the dispatch alternate, one
  filter batch at a time. With positive batch sizes, each round of the outer loop takes the
  next \<^verbatim>\<open>filterBatchSize\<close> locators of the page (fewer at the end of the page) and issues the
  existence checks of exactly these locators, one per locator and in their order, before
  any request for them; the checks write nothing to the ledger. The survivors are locators
  of the batch; a locator of the batch that is dropped has a ledger row marked processed;
  and when the store answers every call and the ledger has one row per url, the survivors
  are exactly the locators of the batch that the ledger does not mark processed, in their
  order. The round then dispatches the survivors: the events up to the next round are
  events of fetching and storing only (no existence check on the ledger, no listing
  request); the locators requested from the Fetcher are exactly the survivors; one scrape
  result is obtained per survivor; the record table is sent one insert per result not
  marked \<^verbatim>\<open>error\<close>; and when the ledger has one row per url and the store never refuses two
  calls in a row, the locator of every such result has exactly one ledger row afterwards,
  with status \<^verbatim>\<open>success\<close> or \<^verbatim>\<open>error\<close>. Only then the loop goes on to the next filter batch.
  The loop ends.
\<close>

theorem filter_then_dispatch_per_batch:
  assumes "i < length pageUrls" and "0 < filterBatchSize cfg" and "0 < cloudFlareBatchSize cfg"
  shows "\<exists>checkedUrls w1 w2 es.
           promise_all (checked checkIfUrlProcessed_us)
             (slice i (i + filterBatchSize cfg) pageUrls) w = (checkedUrls, w1)
         \<and> length (slice i (i + filterBatchSize cfg) pageUrls) =
             min (filterBatchSize cfg) (length pageUrls - i)
         \<and> trace w1 = trace w @ map (Select ''caselaw_scraping_urls'')
                                   (slice i (i + filterBatchSize cfg) pageUrls)
         \<and> caselaw_scraping_urls w1 = caselaw_scraping_urls w
         \<and> set (urlsToProcess_of checkedUrls) \<subseteq> set (slice i (i + filterBatchSize cfg) pageUrls)
         \<and> (\<forall>u\<in>set (slice i (i + filterBatchSize cfg) pageUrls).
               u \<notin> set (urlsToProcess_of checkedUrls) \<longrightarrow>
               (\<exists>row. (u, row) \<in> set (caselaw_scraping_urls w) \<and> processed row))
         \<and> (set (store_faults w) \<subseteq> {None} \<and> distinct (map fst (caselaw_scraping_urls w)) \<longrightarrow>
               urlsToProcess_of checkedUrls =
                 filter (\<lambda>u. \<not> marked u (caselaw_scraping_urls w))
                   (slice i (i + filterBatchSize cfg) pageUrls))
         \<and> cloudFlareLoop cfg 0 (urlsToProcess_of checkedUrls) w1 = Some w2
         \<and> trace w2 = trace w1 @ es
         \<and> list_all page_work es
         \<and> set (fetched_urls es) = set (urlsToProcess_of checkedUrls)
         \<and> map snd (cloudFlareResults cfg 0 (urlsToProcess_of checkedUrls) w1) =
             urlsToProcess_of checkedUrls
         \<and> inserts es = length (stored (cloudFlareResults cfg 0 (urlsToProcess_of checkedUrls) w1))
         \<and> (distinct (map fst (caselaw_scraping_urls w)) \<and> never_twice (store_faults w) \<longrightarrow>
               (\<forall>r\<in>set (cloudFlareResults cfg 0 (urlsToProcess_of checkedUrls) w1).
                  status (fst r) \<noteq> Some ''error'' \<longrightarrow>
                  recorded (snd r) (caselaw_scraping_urls w2)))
         \<and> filterLoop cfg i pageUrls w = filterLoop cfg (i + filterBatchSize cfg) pageUrls w2
         \<and> filterLoop cfg i pageUrls w \<noteq> None"
proof -
  let ?batch = "slice i (i + filterBatchSize cfg) pageUrls"
  obtain checkedUrls w1 where
    p: "promise_all (checked checkIfUrlProcessed_us) ?batch w = (checkedUrls, w1)"
    by (cases "promise_all (checked checkIfUrlProcessed_us) ?batch w")
  let ?urls = "urlsToProcess_of checkedUrls"
  let ?rs = "cloudFlareResults cfg 0 ?urls w1"
  from cloudFlareLoop_returns [OF assms(3)] obtain w2 where
    c: "cloudFlareLoop cfg 0 ?urls w1 = Some w2" by blast
  have len: "length ?batch = min (filterBatchSize cfg) (length pageUrls - i)"
    by (simp add: slice_def min.commute)
  from trace_checks [of ?batch w] p
  have tr: "trace w1 = trace w @ map (Select ''caselaw_scraping_urls'') ?batch" by simp
  from checks_summary [of ?batch w] p
  have l1: "caselaw_scraping_urls w1 = caselaw_scraping_urls w"
    and f1: "store_faults w1 = drop (length ?batch) (store_faults w)"
    and m: "map fst checkedUrls = ?batch"
    and t: "\<forall>p\<in>set checkedUrls. snd p \<longrightarrow>
             (\<exists>row. (fst p, row) \<in> set (caselaw_scraping_urls w) \<and> processed row)"
    by simp_all
  note sub = survivors_of_checks [OF m t]
  have exact: "set (store_faults w) \<subseteq> {None} \<and> distinct (map fst (caselaw_scraping_urls w)) \<longrightarrow>
               ?urls = filter (\<lambda>u. \<not> marked u (caselaw_scraping_urls w)) ?batch"
  proof
    assume a: "set (store_faults w) \<subseteq> {None} \<and> distinct (map fst (caselaw_scraping_urls w))"
    from checks_answered [of w ?batch] a p
    have "checkedUrls = map (\<lambda>u. (u, marked u (caselaw_scraping_urls w))) ?batch" by simp
    then show "?urls = filter (\<lambda>u. \<not> marked u (caselaw_scraping_urls w)) ?batch"
      by (simp only: survivors_of_marks)
  qed
  from cloudFlareLoop_works [OF c] obtain es where
    es: "trace w2 = trace w1 @ es" and pw: "list_all page_work es"
    by (auto simp add: works_def)
  from cloudFlareLoop_tracks [OF c]
  have a: "asks w1 (snd ` set ?rs) w2" and b: "booked w1 ?rs w2"
    and ms: "map snd ?rs = ?urls"
    by (simp_all add: tracks_def)
  from ms have "snd ` set ?rs = set ?urls" by (metis set_map)
  with a es have fe: "set (fetched_urls es) = set ?urls" by (auto simp add: asks_def)
  from cloudFlareLoop_inserted [OF c] es have ins: "inserts es = length (stored ?rs)"
    by (auto simp add: inserted_def)
  have rec: "distinct (map fst (caselaw_scraping_urls w)) \<and> never_twice (store_faults w) \<longrightarrow>
               (\<forall>r\<in>set ?rs. status (fst r) \<noteq> Some ''error'' \<longrightarrow>
                  recorded (snd r) (caselaw_scraping_urls w2))"
  proof
    assume s: "distinct (map fst (caselaw_scraping_urls w)) \<and> never_twice (store_faults w)"
    with l1 f1 have "sound w1" by (simp add: sound_def never_twice_drop)
    with b show "\<forall>r\<in>set ?rs. status (fst r) \<noteq> Some ''error'' \<longrightarrow>
                  recorded (snd r) (caselaw_scraping_urls w2)"
      unfolding booked_def by blast
  qed
  have step: "filterLoop cfg i pageUrls w = filterLoop cfg (i + filterBatchSize cfg) pageUrls w2"
    using assms p c by (subst filterLoop.simps) simp
  from filterLoop_returns [OF assms(2,3)] have nn: "filterLoop cfg i pageUrls w \<noteq> None" by auto
  show ?thesis
    by (intro exI [of _ checkedUrls] exI [of _ w1] exI [of _ w2] exI [of _ es] conjI)
       (fact p len tr l1 sub exact c es pw fe ms ins rec step nn)+
qed

text \<open>
  A witness for C8: five locators, \<^verbatim>\<open>filterBatchSize = 2\<close>, and a ledger that marks the first
  locator as processed. The first round checks the first two locators, drops the first,
  fetches and stores the second, and hands over to the round that starts at index 2.
\<close>

theorem filter_then_dispatch_per_batch_witness:
  "0 < length [''a'', ''b'', ''c'', ''d'', ''e'']
   \<and> 0 < filterBatchSize \<lparr>filterBatchSize = 2, cloudFlareBatchSize = 100\<rparr>
   \<and> 0 < cloudFlareBatchSize \<lparr>filterBatchSize = 2, cloudFlareBatchSize = 100\<rparr>
   \<and> set (store_faults ((fresh [found ruling, found ruling, found ruling, found ruling] [])
          \<lparr>caselaw_scraping_urls := [(''a'', no_row\<lparr>processed := True, l_status := ''success''\<rparr>)]\<rparr>)) \<subseteq> {None}
   \<and> distinct (map fst (caselaw_scraping_urls ((fresh [found ruling, found ruling, found ruling, found ruling] [])
          \<lparr>caselaw_scraping_urls := [(''a'', no_row\<lparr>processed := True, l_status := ''success''\<rparr>)]\<rparr>)))
   \<and> never_twice (store_faults ((fresh [found ruling, found ruling, found ruling, found ruling] [])
          \<lparr>caselaw_scraping_urls := [(''a'', no_row\<lparr>processed := True, l_status := ''success''\<rparr>)]\<rparr>))
   \<and> (\<exists>checkedUrls w1 w2 es.
         promise_all (checked checkIfUrlProcessed_us) [''a'', ''b''] ((fresh [found ruling, found ruling, found ruling, found ruling] [])
          \<lparr>caselaw_scraping_urls := [(''a'', no_row\<lparr>processed := True, l_status := ''success''\<rparr>)]\<rparr>) = (checkedUrls, w1)
       \<and> trace w1 = [Select ''caselaw_scraping_urls'' ''a'', Select ''caselaw_scraping_urls'' ''b'']
       \<and> urlsToProcess_of checkedUrls = [''b'']
       \<and> cloudFlareLoop \<lparr>filterBatchSize = 2, cloudFlareBatchSize = 100\<rparr> 0 [''b''] w1 = Some w2
       \<and> trace w2 = trace w1 @ es
       \<and> list_all page_work es
       \<and> set (fetched_urls es) = {''b''}
       \<and> inserts es = 1
       \<and> recorded ''b'' (caselaw_scraping_urls w2)
       \<and> filterLoop \<lparr>filterBatchSize = 2, cloudFlareBatchSize = 100\<rparr> 0
            [''a'', ''b'', ''c'', ''d'', ''e''] ((fresh [found ruling, found ruling, found ruling, found ruling] [])
          \<lparr>caselaw_scraping_urls := [(''a'', no_row\<lparr>processed := True, l_status := ''success''\<rparr>)]\<rparr>) =
          filterLoop \<lparr>filterBatchSize = 2, cloudFlareBatchSize = 100\<rparr> 2
            [''a'', ''b'', ''c'', ''d'', ''e''] w2)"
proof -
  let ?cfg = "\<lparr>filterBatchSize = 2, cloudFlareBatchSize = 100\<rparr>"
  let ?pageUrls = "[''a'', ''b'', ''c'', ''d'', ''e'']"
  let ?w = "((fresh [found ruling, found ruling, found ruling, found ruling] [])
          \<lparr>caselaw_scraping_urls := [(''a'', no_row\<lparr>processed := True, l_status := ''success''\<rparr>)]\<rparr>)"
  have h: "0 < length ?pageUrls" "0 < filterBatchSize ?cfg" "0 < cloudFlareBatchSize ?cfg"
    by simp_all
  have q: "set (store_faults ?w) \<subseteq> {None}" and d: "distinct (map fst (caselaw_scraping_urls ?w))"
    and n: "never_twice (store_faults ?w)" and t: "trace ?w = []"
    by (simp_all add: fresh_def)
  have s: "slice 0 (0 + filterBatchSize ?cfg) ?pageUrls = [''a'', ''b'']"
    by (simp add: slice_def)
  have k: "filter (\<lambda>u. \<not> marked u (caselaw_scraping_urls ?w)) [''a'', ''b''] = [''b'']"
    by (simp add: marked_def fresh_def no_row_def)
  have rs: "cloudFlareResults ?cfg 0 [''b'']
              (snd (promise_all (checked checkIfUrlProcessed_us) [''a'', ''b''] ?w)) =
            [(ruling, ''b'')]"
    by (simp add: run_defs results_defs)
  from filter_then_dispatch_per_batch [OF h, of ?w] obtain checkedUrls w1 w2 es where
    a: "promise_all (checked checkIfUrlProcessed_us)
          (slice 0 (0 + filterBatchSize ?cfg) ?pageUrls) ?w = (checkedUrls, w1)"
    and b: "trace w1 = trace ?w @ map (Select ''caselaw_scraping_urls'')
                                   (slice 0 (0 + filterBatchSize ?cfg) ?pageUrls)"
    and x: "set (store_faults ?w) \<subseteq> {None} \<and> distinct (map fst (caselaw_scraping_urls ?w)) \<longrightarrow>
               urlsToProcess_of checkedUrls =
                 filter (\<lambda>u. \<not> marked u (caselaw_scraping_urls ?w))
                   (slice 0 (0 + filterBatchSize ?cfg) ?pageUrls)"
    and c: "cloudFlareLoop ?cfg 0 (urlsToProcess_of checkedUrls) w1 = Some w2"
    and es: "trace w2 = trace w1 @ es"
    and pw: "list_all page_work es"
    and fe: "set (fetched_urls es) = set (urlsToProcess_of checkedUrls)"
    and ins: "inserts es =
        length (stored (cloudFlareResults ?cfg 0 (urlsToProcess_of checkedUrls) w1))"
    and rec: "distinct (map fst (caselaw_scraping_urls ?w)) \<and> never_twice (store_faults ?w) \<longrightarrow>
               (\<forall>r\<in>set (cloudFlareResults ?cfg 0 (urlsToProcess_of checkedUrls) w1).
                  status (fst r) \<noteq> Some ''error'' \<longrightarrow>
                  recorded (snd r) (caselaw_scraping_urls w2))"
    and e: "filterLoop ?cfg 0 ?pageUrls ?w = filterLoop ?cfg (0 + filterBatchSize ?cfg) ?pageUrls w2"
    by (elim exE conjE) (rule that)
  from a s have a': "promise_all (checked checkIfUrlProcessed_us) [''a'', ''b''] ?w =
      (checkedUrls, w1)" by (simp only:)
  from b s t have b': "trace w1 =
      [Select ''caselaw_scraping_urls'' ''a'', Select ''caselaw_scraping_urls'' ''b'']"
    by (simp only: append_Nil list.map)
  from x q d s k have u: "urlsToProcess_of checkedUrls = [''b'']" by (simp only:)
  from c u have c': "cloudFlareLoop ?cfg 0 [''b''] w1 = Some w2" by (simp only:)
  from fe u have fe': "set (fetched_urls es) = {''b''}" by simp
  from a' have "w1 = snd (promise_all (checked checkIfUrlProcessed_us) [''a'', ''b''] ?w)"
    by (simp only: snd_conv)
  with rs u have rs': "cloudFlareResults ?cfg 0 (urlsToProcess_of checkedUrls) w1 = [(ruling, ''b'')]"
    by (simp only:)
  have st: "status ruling \<noteq> Some ''error''" by (simp add: ruling_def no_fields_def)
  from ins rs' st have ins': "inserts es = 1" by (simp add: stored_def)
  from rec d n rs' st have r': "recorded ''b'' (caselaw_scraping_urls w2)" by simp
  have "0 + filterBatchSize ?cfg = 2" by simp
  with e have e': "filterLoop ?cfg 0 ?pageUrls ?w = filterLoop ?cfg 2 ?pageUrls w2"
    by (simp only:)
  have "\<exists>checkedUrls w1 w2 es.
         promise_all (checked checkIfUrlProcessed_us) [''a'', ''b''] ?w = (checkedUrls, w1)
       \<and> trace w1 = [Select ''caselaw_scraping_urls'' ''a'', Select ''caselaw_scraping_urls'' ''b'']
       \<and> urlsToProcess_of checkedUrls = [''b'']
       \<and> cloudFlareLoop ?cfg 0 [''b''] w1 = Some w2
       \<and> trace w2 = trace w1 @ es
       \<and> list_all page_work es
       \<and> set (fetched_urls es) = {''b''}
       \<and> inserts es = 1
       \<and> recorded ''b'' (caselaw_scraping_urls w2)
       \<and> filterLoop ?cfg 0 ?pageUrls ?w = filterLoop ?cfg 2 ?pageUrls w2"
    by (intro exI [of _ checkedUrls] exI [of _ w1] exI [of _ w2] exI [of _ es] conjI)
       (fact a' b' u c' es pw fe' ins' r' e')+
  with h q d n show ?thesis by (intro conjI)
qed

text \<open>
  Claim C8 as stated fails: with \<^verbatim>\<open>filterBatchSize = 2\<close> and a page of five locators, none
  of them processed before, the existence checks come in three batches of sizes 2, 2 and 1,
  but the first two locators are fetched and stored before the third is checked.
\<close>

theorem fetch_before_later_filter_batches:
  "map_option trace
     (filterLoop \<lparr>filterBatchSize = 2, cloudFlareBatchSize = 100\<rparr> 0
        [''a'', ''b'', ''c'', ''d'', ''e'']
        (fresh [found ruling, found ruling, found ruling, found ruling, found ruling] [])) =
   Some
  [Select ''caselaw_scraping_urls'' ''a'',
   Select ''caselaw_scraping_urls'' ''b'', Fetch (ScrapeCases ''a'' False),
   Fetch (ScrapeCases ''b'' False), Insert ''caselaw_us'',
   Upsert ''a'' ''success'', Insert ''caselaw_us'',
   Upsert ''b'' ''success'', Sleep 500,
   Select ''caselaw_scraping_urls'' ''c'',
   Select ''caselaw_scraping_urls'' ''d'', Fetch (ScrapeCases ''c'' False),
   Fetch (ScrapeCases ''d'' False), Insert ''caselaw_us'',
   Upsert ''c'' ''success'', Insert ''caselaw_us'',
   Upsert ''d'' ''success'', Sleep 500,
   Select ''caselaw_scraping_urls'' ''e'', Fetch (ScrapeCases ''e'' False),
   Insert ''caselaw_us'', Upsert ''e'' ''success'', Sleep 500]"
  by (simp add: run_defs)

section \<open>Running the Singapore driver twice\<close>

text \<open>
  Claim C3, evaluated on the Singapore driver. The listing has one locator on page 340 and
  page 341 is empty; the judgment carries an empty citation. The first run writes row 1.
  The second run, against the same listing and the same answers, fetches the locator again
  (\<^verbatim>\<open>checkIfUrlProcessed\<close> returns \<^verbatim>\<open>false\<close> before it queries the ledger) and writes
  row 2. The US driver, whose \<^verbatim>\<open>checkIfUrlProcessed\<close> does query the ledger, writes row 1 in
  its first run and nothing in its second.
\<close>

theorem second_run_writes_again:
  "map row_id
     (caselaw_singapore
        (snd (scrapeSingaporeCaseLaws CONFIG_sg
           (fresh [listing [''/gd/s/2019_SGHC_1''], found (ruling\<lparr>citation := Some []\<rparr>),
                   listing []] [])))) = [1]
   \<and> map row_id
     (caselaw_singapore
        (snd (scrapeSingaporeCaseLaws CONFIG_sg
           ((snd (scrapeSingaporeCaseLaws CONFIG_sg
               (fresh [listing [''/gd/s/2019_SGHC_1''], found (ruling\<lparr>citation := Some []\<rparr>),
                       listing []] [])))
            \<lparr>http := [listing [''/gd/s/2019_SGHC_1''], found (ruling\<lparr>citation := Some []\<rparr>),
                      listing []]\<rparr>)))) = [1, 2]
   \<and> (case scrapFindLaws CONFIG
             (fresh [listing [''https://caselaw.findlaw.com/sitemap-1.xml''], listing [''u''],
                     found ruling] []) of
        None \<Rightarrow> None
      | Some (r, w1) \<Rightarrow>
          map_option (\<lambda>(r, w2). (map row_id (caselaw_us w1), map row_id (caselaw_us w2)))
            (scrapFindLaws CONFIG
               (w1\<lparr>http := [listing [''https://caselaw.findlaw.com/sitemap-1.xml''],
                             listing [''u''], found ruling]\<rparr>))) = Some ([1], [1])"
  by (simp add: run_defs)

end
